theory Spec2Isabelle
  imports Main
begin

section \<open>Circuit breaker (class CircuitBreaker)\<close>

text \<open>
  The breaker is the object built by the constructor of class CircuitBreaker: a state
  name, two counters, three time stamps, four configuration values and the metrics
  counters. Time stamps are the values of Date.now() (milliseconds), passed to every
  operation that reads the clock. The event listeners are left out: emit only calls
  listener callbacks and swallows their exceptions, and no operation reads them.
  The log written by transitionTo (oldState, newState) is kept as the field stateLog.
\<close>

datatype cb_state = CLOSED | OPEN | HALF_OPEN

record breaker =
  name :: string
  state :: cb_state
  failures :: nat
  successes :: nat
  lastFailTime :: "int option"
  lastSuccessTime :: "int option"
  lastStateChange :: int
  failureThreshold :: nat
  successThreshold :: nat
  timeout :: nat
  resetTimeout :: int
  totalRequests :: nat
  totalSuccesses :: nat
  totalFailures :: nat
  totalFallbacks :: nat
  totalRejections :: nat
  stateChanges :: nat
  stateLog :: "(cb_state \<times> cb_state) list"

text \<open>
  The constructor's options: each of options.x || default, where 0 and a missing
  value are both falsy.
\<close>

record cb_options =
  opt_name :: "string option"
  opt_failureThreshold :: "nat option"
  opt_successThreshold :: "nat option"
  opt_timeout :: "nat option"
  opt_resetTimeout :: "nat option"

definition or_default :: "nat option \<Rightarrow> nat \<Rightarrow> nat" where
  "or_default v d = (case v of None \<Rightarrow> d | Some n \<Rightarrow> if n = 0 then d else n)"

definition new_breaker :: "cb_options \<Rightarrow> int \<Rightarrow> breaker" where
  "new_breaker opts now =
     \<lparr> name = (case opt_name opts of None \<Rightarrow> ''default''
                | Some n \<Rightarrow> if n = [] then ''default'' else n),
       state = CLOSED,
       failures = 0,
       successes = 0,
       lastFailTime = None,
       lastSuccessTime = None,
       lastStateChange = now,
       failureThreshold = or_default (opt_failureThreshold opts) 5,
       successThreshold = or_default (opt_successThreshold opts) 2,
       timeout = or_default (opt_timeout opts) 60000,
       resetTimeout = int (or_default (opt_resetTimeout opts) 30000),
       totalRequests = 0,
       totalSuccesses = 0,
       totalFailures = 0,
       totalFallbacks = 0,
       totalRejections = 0,
       stateChanges = 0,
       stateLog = [] \<rparr>"

text \<open>
  transitionTo(newState): sets the state and the time of the change, counts the change,
  resets both counters on CLOSED and the success counter on HALF_OPEN, and logs the pair.
\<close>

definition transitionTo :: "int \<Rightarrow> cb_state \<Rightarrow> breaker \<Rightarrow> breaker" where
  "transitionTo now newState b =
     (let oldState = state b;
          b1 = b\<lparr> state := newState, lastStateChange := now,
                  stateChanges := stateChanges b + 1 \<rparr>;
          b2 = (if newState = CLOSED then b1\<lparr> failures := 0, successes := 0 \<rparr>
                else if newState = HALF_OPEN then b1\<lparr> successes := 0 \<rparr>
                else b1)
      in b2\<lparr> stateLog := stateLog b2 @ [(oldState, newState)] \<rparr>)"

definition shouldAttemptReset :: "int \<Rightarrow> breaker \<Rightarrow> bool" where
  "shouldAttemptReset now b = (now - lastStateChange b \<ge> resetTimeout b)"

definition onSuccess :: "int \<Rightarrow> breaker \<Rightarrow> breaker" where
  "onSuccess now b =
     (let b1 = b\<lparr> totalSuccesses := totalSuccesses b + 1, lastSuccessTime := Some now \<rparr>
      in if state b1 = HALF_OPEN then
           (let b2 = b1\<lparr> successes := successes b1 + 1 \<rparr>
            in if successes b2 \<ge> successThreshold b2 then transitionTo now CLOSED b2 else b2)
         else b1\<lparr> failures := 0 \<rparr>)"

text \<open>
  The errors execute can reject with: the Error thrown while the circuit is open (it
  carries the breaker's name), the Error of the timeout race, whatever the action or the
  fallback throws (a value that is neither null nor undefined, or null/undefined), and
  the TypeError raised by reading a property of null or undefined.
\<close>

datatype 'e cb_error = CircuitOpenError string | RequestTimeout | Thrown 'e | ThrownNullish | TypeError

text \<open>
  onFailure(error): counts the failure and records its time; then builds the log record,
  reading error.message, which throws a TypeError when error is null or undefined; then
  opens the circuit from HALF_OPEN, or when the failure count has reached
  failureThreshold (whatever the state is otherwise: there is no test that it is
  CLOSED). The result says whether the TypeError was thrown.
\<close>

definition onFailure :: "int \<Rightarrow> 'e cb_error \<Rightarrow> breaker \<Rightarrow> 'e cb_error option \<times> breaker" where
  "onFailure now error b =
     (let b1 = b\<lparr> totalFailures := totalFailures b + 1, failures := failures b + 1,
                  lastFailTime := Some now \<rparr>
      in case error of
           ThrownNullish \<Rightarrow> (Some TypeError, b1)
         | _ \<Rightarrow>
             (None,
              if state b1 = HALF_OPEN then transitionTo now OPEN b1
              else if failures b1 \<ge> failureThreshold b1 then transitionTo now OPEN b1
              else b1))"



text \<open>
  The action fn is opaque. What executeWithTimeout sees of one invocation is whether fn
  fulfils, rejects (or throws) with a value that is not null or undefined, rejects with
  null or undefined, all before the timer of this.timeout milliseconds fires, or the
  timer fires first (the race then rejects with the Error 'Request timeout').
\<close>

datatype ('e, 'a) invocation = Fulfils 'a | Rejects 'e | RejectsNullish | Outlasts

definition executeWithTimeout :: "('e, 'a) invocation \<Rightarrow> 'e cb_error + 'a" where
  "executeWithTimeout run =
     (case run of
        Fulfils v \<Rightarrow> Inr v
      | Rejects e \<Rightarrow> Inl (Thrown e)
      | RejectsNullish \<Rightarrow> Inl ThrownNullish
      | Outlasts \<Rightarrow> Inl RequestTimeout)"

text \<open>The calls execute makes to the functions it was given, in order.\<close>

datatype call = CallAction | CallFallback

text \<open>
  execute(fn, fallback) runs in two steps with an await between them. \<open>fallback\<close> is
  None when no fallback is supplied and otherwise what invoking the fallback gives (a
  value, or the error it throws).

  The first step, \<open>enter\<close>, at clock \<open>t0\<close>: the request is counted and the gate is
  checked. The result is Some of what the promise settles with and the calls made when
  the call ends at the gate, and None when the call goes on to invoke fn.

  The second step, \<open>attempt\<close>, at clock \<open>t1\<close>, when the race of fn against the
  timeout has settled; \<open>run\<close> is what invoking fn did. It works on the breaker as it is
  then, which other calls may have changed in between. A TypeError thrown by onFailure
  leaves the catch block: the fallback is not called.

  \<open>execute\<close> is a call that nothing else overlaps: the second step follows the first
  on the same breaker. The result is what the promise settles with, the calls made, and
  the breaker afterwards.
\<close>

definition enter ::
  "int \<Rightarrow> ('e cb_error + 'a) option \<Rightarrow> breaker
     \<Rightarrow> (('e cb_error + 'a) \<times> call list) option \<times> breaker" where
  "enter t0 fallback b =
     (let b1 = b\<lparr> totalRequests := totalRequests b + 1 \<rparr>
      in if state b1 = OPEN then
           (if shouldAttemptReset t0 b1 then (None, transitionTo t0 HALF_OPEN b1)
            else
              (let b2 = b1\<lparr> totalRejections := totalRejections b1 + 1 \<rparr>
               in case fallback of
                    Some fb \<Rightarrow>
                      (Some (fb, [CallFallback]), b2\<lparr> totalFallbacks := totalFallbacks b2 + 1 \<rparr>)
                  | None \<Rightarrow> (Some (Inl (CircuitOpenError (name b2)), []), b2)))
         else (None, b1))"

definition attempt ::
  "int \<Rightarrow> ('e, 'a) invocation \<Rightarrow> ('e cb_error + 'a) option \<Rightarrow> breaker
     \<Rightarrow> ('e cb_error + 'a) \<times> call list \<times> breaker" where
  "attempt t1 run fallback b =
     (case executeWithTimeout run of
        Inr v \<Rightarrow> (Inr v, [CallAction], onSuccess t1 b)
      | Inl err \<Rightarrow>
          (case onFailure t1 err b of
             (Some thrown, b1) \<Rightarrow> (Inl thrown, [CallAction], b1)
           | (None, b1) \<Rightarrow>
               (case fallback of
                  Some fb \<Rightarrow> (fb, [CallAction, CallFallback],
                               b1\<lparr> totalFallbacks := totalFallbacks b1 + 1 \<rparr>)
                | None \<Rightarrow> (Inl err, [CallAction], b1))))"

definition execute ::
  "int \<Rightarrow> int \<Rightarrow> ('e, 'a) invocation \<Rightarrow> ('e cb_error + 'a) option \<Rightarrow> breaker
     \<Rightarrow> ('e cb_error + 'a) \<times> call list \<times> breaker" where
  "execute t0 t1 run fallback b =
     (case enter t0 fallback b of
        (Some (res, calls), b1) \<Rightarrow> (res, calls, b1)
      | (None, b1) \<Rightarrow> attempt t1 run fallback b1)"


definition fails_with_reason :: "('e, 'a) invocation \<Rightarrow> bool" where
  "fails_with_reason run = (case run of Rejects e \<Rightarrow> True | Outlasts \<Rightarrow> True | _ \<Rightarrow> False)"

text \<open>
  A sequence of execute calls made one after the other on the same breaker, none
  overlapping another, each given by its two clock readings, what its action does and
  its fallback.
\<close>

type_synonym ('e, 'a) exec_call = "int \<times> int \<times> ('e, 'a) invocation \<times> ('e cb_error + 'a) option"

fun execute_all :: "breaker \<Rightarrow> ('e, 'a) exec_call list \<Rightarrow> breaker" where
  "execute_all b [] = b"
| "execute_all b ((t0, t1, run, fallback) # cs) =
     execute_all (snd (snd (execute t0 t1 run fallback b))) cs"

text \<open>
  Calls that overlap: all of them pass the gate, in order, before the first of them
  settles; then they settle, in order.
\<close>

fun enter_all :: "breaker \<Rightarrow> ('e, 'a) exec_call list \<Rightarrow> breaker" where
  "enter_all b [] = b"
| "enter_all b ((t0, t1, run, fallback) # cs) = enter_all (snd (enter t0 fallback b)) cs"

fun attempt_all :: "breaker \<Rightarrow> ('e, 'a) exec_call list \<Rightarrow> breaker" where
  "attempt_all b [] = b"
| "attempt_all b ((t0, t1, run, fallback) # cs) =
     attempt_all (snd (snd (attempt t1 run fallback b))) cs"



text \<open>Concrete breakers and calls used to exercise the theorems below.\<close>

definition five_failures :: "(string, nat) exec_call list" where
  "five_failures = [(10, 11, Rejects ''boom'', None), (20, 21, Outlasts, None),
      (30, 31, Rejects ''boom'', Some (Inr 0)), (40, 41, Outlasts, None), (50, 51, Rejects ''bang'', None)]"

definition five_nullish_failures :: "(string, nat) exec_call list" where
  "five_nullish_failures = [(10, 11, RejectsNullish, None), (20, 21, RejectsNullish, None),
      (30, 31, RejectsNullish, None), (40, 41, RejectsNullish, None), (50, 51, RejectsNullish, None)]"

definition six_failures :: "(string, nat) exec_call list" where
  "six_failures = five_failures @ [(55, 60, Rejects ''late'', None)]"

definition threshold_five :: cb_options where
  "threshold_five = \<lparr> opt_name = Some ''grok-ai'', opt_failureThreshold = Some 5,
      opt_successThreshold = None, opt_timeout = None, opt_resetTimeout = Some 1000 \<rparr>"

definition half_open_breaker :: breaker where
  "half_open_breaker = (new_breaker threshold_five 0)\<lparr> state := HALF_OPEN, failures := 5,
      successes := 1, lastStateChange := 2000 \<rparr>"


section \<open>Browser pool (class BrowserPool)\<close>

text \<open>
  A browser is named by the order in which puppeteer.launch produced it: the browsers
  launched so far are 0, 1, ..., launched - 1. Besides the fields of the object (minSize,
  maxSize, pool, activeCount, queue and the metrics) the state holds what the pool's
  calls observe of the world: the browsers on which close() has been called, the
  browsers that have disconnected by themselves, the createBrowser calls that were
  started without anyone waiting for them (by the constructor's initialize and by
  release) and are still in flight, and the promises handed out by acquire with the
  timers armed for them. The fields written and never read by the pool (the browsers'
  _poolMetadata, a waiter's enqueuedAt) are left out, as is logging.

  Each call runs to its end before the next starts; a launch the caller awaits
  (in acquire and in healthCheck) completes within the call.
\<close>

datatype pool_error = LaunchError | AcquireTimeout | ShuttingDown

datatype settlement = Resolved nat | Rejected pool_error

text \<open>
  The functions a queue entry can hold or a timer can call, for the promise numbered p:
  the promise's own resolve and reject, and the two closures acquire builds around them
  (which cancel the timer first).
\<close>

datatype callback = PromiseResolve nat | PromiseReject nat | WrappedResolve nat | WrappedReject nat

record waiter =
  resolve :: callback
  reject :: callback

record pool_state =
  minSize :: nat
  maxSize :: nat
  pool :: "nat list"
  activeCount :: int
  queue :: "waiter list"
  totalAcquired :: nat
  totalReleased :: nat
  totalCreated :: nat
  totalDestroyed :: nat
  queueHighWaterMark :: nat
  errors :: nat
  launched :: nat
  closed :: "nat list"
  crashed :: "nat list"
  pendingLaunches :: nat
  promises :: nat
  settled :: "nat \<Rightarrow> settlement option"
  timers :: "nat list"

text \<open>browser.isConnected(): the browser exists, has not been closed and has not crashed.\<close>

definition isConnected :: "pool_state \<Rightarrow> nat \<Rightarrow> bool" where
  "isConnected s b = (b < launched s \<and> b \<notin> set (closed s) \<and> b \<notin> set (crashed s))"

text \<open>browser.close(), as the pool sees it: the browser is closed from then on.\<close>

definition close_browser :: "nat \<Rightarrow> pool_state \<Rightarrow> pool_state" where
  "close_browser b s = s\<lparr> closed := closed s @ [b] \<rparr>"

text \<open>A promise settles once; a later resolve or reject of it does nothing.\<close>

definition settle :: "nat \<Rightarrow> settlement \<Rightarrow> pool_state \<Rightarrow> pool_state" where
  "settle p x s = (if settled s p = None then s\<lparr> settled := (settled s)(p \<mapsto> x) \<rparr> else s)"

definition clearTimeout :: "nat \<Rightarrow> pool_state \<Rightarrow> pool_state" where
  "clearTimeout p s = s\<lparr> timers := removeAll p (timers s) \<rparr>"

text \<open>
  Calling a stored function with a browser, or with an error. The wrapped functions are
  the closures of acquire: clearTimeout(timeoutId), then the promise's own function.
\<close>

definition call_resolve :: "callback \<Rightarrow> nat \<Rightarrow> pool_state \<Rightarrow> pool_state" where
  "call_resolve f b s =
     (case f of
        PromiseResolve p \<Rightarrow> settle p (Resolved b) s
      | WrappedResolve p \<Rightarrow> settle p (Resolved b) (clearTimeout p s)
      | PromiseReject p \<Rightarrow> s
      | WrappedReject p \<Rightarrow> s)"

definition call_reject :: "callback \<Rightarrow> pool_error \<Rightarrow> pool_state \<Rightarrow> pool_state" where
  "call_reject f e s =
     (case f of
        PromiseReject p \<Rightarrow> settle p (Rejected e) s
      | WrappedReject p \<Rightarrow> settle p (Rejected e) (clearTimeout p s)
      | PromiseResolve p \<Rightarrow> s
      | WrappedResolve p \<Rightarrow> s)"

text \<open>
  The constructor: parseInt(options.minSize || process.env.MIN_POOL_SIZE || 2) and the
  same for maxSize with 5, empty pool and queue, zero counters, and the call of
  initialize() that it does not await. The option is a number, falsy when it is missing
  or 0. The environment variable is a string: None when it is unset or empty, Some n when
  it is set to the digits of n, which is truthy whatever n is (also for n = 0) and is
  then what parseInt reads.
\<close>

definition first_truthy :: "nat option \<Rightarrow> nat option \<Rightarrow> nat \<Rightarrow> nat" where
  "first_truthy opt env d =
     (let fromEnv = (case env of None \<Rightarrow> d | Some n \<Rightarrow> n)
      in case opt of None \<Rightarrow> fromEnv | Some n \<Rightarrow> if n = 0 then fromEnv else n)"

definition initialize :: "pool_state \<Rightarrow> pool_state" where
  "initialize s = s\<lparr> pendingLaunches := pendingLaunches s + minSize s \<rparr>"

definition new_pool :: "nat option \<Rightarrow> nat option \<Rightarrow> nat option \<Rightarrow> nat option \<Rightarrow> pool_state" where
  "new_pool optMin envMin optMax envMax =
     initialize
       \<lparr> minSize = first_truthy optMin envMin 2,
         maxSize = first_truthy optMax envMax 5,
         pool = [],
         activeCount = 0,
         queue = [],
         totalAcquired = 0,
         totalReleased = 0,
         totalCreated = 0,
         totalDestroyed = 0,
         queueHighWaterMark = 0,
         errors = 0,
         launched = 0,
         closed = [],
         crashed = [],
         pendingLaunches = 0,
         promises = 0,
         settled = (\<lambda>p. None),
         timers = [] \<rparr>"

text \<open>
  createBrowser() once puppeteer.launch has settled: on success the new browser is pushed
  to the pool and counted, on failure the error is counted and rethrown.
\<close>

definition createBrowser :: "bool \<Rightarrow> pool_state \<Rightarrow> (pool_error + nat) \<times> pool_state" where
  "createBrowser ok s =
     (if ok then
        (Inr (launched s),
         s\<lparr> pool := pool s @ [launched s], launched := launched s + 1,
            totalCreated := totalCreated s + 1 \<rparr>)
      else (Inl LaunchError, s\<lparr> errors := errors s + 1 \<rparr>))"

text \<open>
  A launch nobody awaits settles: the rest of createBrowser runs (its error, if any, is
  swallowed by the caller's catch, or is the rejection of initialize).
\<close>

definition launch_lands :: "bool \<Rightarrow> pool_state \<Rightarrow> pool_state" where
  "launch_lands ok s = snd (createBrowser ok (s\<lparr> pendingLaunches := pendingLaunches s - 1 \<rparr>))"

text \<open>
  acquire(timeout). \<open>ok\<close> says whether the launch succeeds, should the call create a
  browser. The call returns a browser, throws, or returns a pending promise after
  queueing a waiter and arming its timer.
\<close>

datatype acquire_result = Got nat | Failed pool_error | Queued nat

function acquire :: "bool \<Rightarrow> pool_state \<Rightarrow> acquire_result \<times> pool_state" where
  "acquire ok s =
     (let s1 = s\<lparr> totalAcquired := totalAcquired s + 1 \<rparr>
      in if pool s1 \<noteq> [] then
           (let browser = last (pool s1);
                s2 = s1\<lparr> pool := butlast (pool s1), activeCount := activeCount s1 + 1 \<rparr>
            in if \<not> isConnected s2 browser then
                 acquire ok ((close_browser browser s2)
                     \<lparr> activeCount := activeCount s2 - 1, totalDestroyed := totalDestroyed s2 + 1 \<rparr>)
               else (Got browser, s2))
         else if activeCount s1 < int (maxSize s1) then
           (let s2 = s1\<lparr> activeCount := activeCount s1 + 1 \<rparr>
            in case createBrowser ok s2 of
                 (Inr browser, s3) \<Rightarrow> (Got browser, s3\<lparr> pool := butlast (pool s3) \<rparr>)
               | (Inl err, s3) \<Rightarrow> (Failed err, s3\<lparr> activeCount := activeCount s3 - 1 \<rparr>))
         else
           (let s2 = s1\<lparr> queueHighWaterMark := max (queueHighWaterMark s1) (length (queue s1) + 1) \<rparr>;
                p = promises s2
            in (Queued p,
                s2\<lparr> promises := p + 1, timers := timers s2 @ [p],
                    queue := queue s2 @ [\<lparr> resolve = WrappedResolve p, reject = WrappedReject p \<rparr>] \<rparr>)))"
  by pat_completeness auto
termination
  by (relation "measure (\<lambda>(ok, s). length (pool s))") (auto simp: close_browser_def)

declare acquire.simps [simp del]

text \<open>
  The timer armed by acquire for promise p fires: it looks for the queue entry whose
  resolve is the promise's resolve, removes it if found, and rejects the promise.
\<close>

fun findIndex :: "('a \<Rightarrow> bool) \<Rightarrow> 'a list \<Rightarrow> nat option" where
  "findIndex P [] = None"
| "findIndex P (x # xs) = (if P x then Some 0 else map_option Suc (findIndex P xs))"

definition splice1 :: "nat \<Rightarrow> 'a list \<Rightarrow> 'a list" where
  "splice1 i xs = take i xs @ drop (Suc i) xs"

definition timer_fires :: "nat \<Rightarrow> pool_state \<Rightarrow> pool_state" where
  "timer_fires p s =
     (let s1 = s\<lparr> timers := removeAll p (timers s) \<rparr>;
          s2 = (case findIndex (\<lambda>item. resolve item = PromiseResolve p) (queue s1) of
                  Some i \<Rightarrow> s1\<lparr> queue := splice1 i (queue s1) \<rparr>
                | None \<Rightarrow> s1)
      in call_reject (PromiseReject p) AcquireTimeout s2)"

text \<open>release(browser).\<close>

definition release :: "nat \<Rightarrow> pool_state \<Rightarrow> pool_state" where
  "release browser s =
     (let s1 = s\<lparr> totalReleased := totalReleased s + 1, activeCount := activeCount s - 1 \<rparr>
      in if \<not> isConnected s1 browser then
           (let s2 = (close_browser browser s1)\<lparr> totalDestroyed := totalDestroyed s1 + 1 \<rparr>
            in if int (length (pool s2)) + activeCount s2 < int (minSize s2)
               then s2\<lparr> pendingLaunches := pendingLaunches s2 + 1 \<rparr>
               else s2)
         else if queue s1 \<noteq> [] then
           (let w = hd (queue s1);
                s2 = s1\<lparr> queue := tl (queue s1), activeCount := activeCount s1 + 1 \<rparr>
            in call_resolve (resolve w) browser s2)
         else if length (pool s1) < maxSize s1 then s1\<lparr> pool := pool s1 @ [browser] \<rparr>
         else (close_browser browser s1)\<lparr> totalDestroyed := totalDestroyed s1 + 1 \<rparr>)"

text \<open>
  healthCheck(): the idle browsers that are not connected are removed from the pool one
  by one (indexOf, splice) and closed; if there were any, the pool is replenished while
  pool.length + activeCount is below minSize, one awaited createBrowser per round, a
  failed launch being logged and the loop going on. \<open>oks\<close> are the outcomes of the
  launches in order; the loop has not ended within them when the result is None.
\<close>

fun remove_unhealthy :: "nat list \<Rightarrow> pool_state \<Rightarrow> pool_state" where
  "remove_unhealthy [] s = s"
| "remove_unhealthy (b # bs) s =
     remove_unhealthy bs
       ((close_browser b (s\<lparr> pool := remove1 b (pool s) \<rparr>))
          \<lparr> totalDestroyed := totalDestroyed s + 1 \<rparr>)"

fun replenish :: "bool list \<Rightarrow> pool_state \<Rightarrow> pool_state option" where
  "replenish [] s =
     (if int (length (pool s)) + activeCount s < int (minSize s) then None else Some s)"
| "replenish (ok # oks) s =
     (if int (length (pool s)) + activeCount s < int (minSize s)
      then replenish oks (snd (createBrowser ok s)) else Some s)"

definition healthCheck :: "bool list \<Rightarrow> pool_state \<Rightarrow> ((nat \<times> nat) \<times> pool_state) option" where
  "healthCheck oks s =
     (let unhealthyBrowsers = filter (\<lambda>b. \<not> isConnected s b) (pool s);
          s1 = remove_unhealthy unhealthyBrowsers s;
          r = (if unhealthyBrowsers \<noteq> [] then replenish oks s1 else Some s1)
      in map_option (\<lambda>s2. ((length unhealthyBrowsers, length (pool s2)), s2)) r)"

text \<open>
  cleanup(): every queue entry is shifted off and its reject called with the shutdown
  error, every idle browser is closed, the pool is emptied and activeCount set to 0.
\<close>

fun reject_queued :: "waiter list \<Rightarrow> pool_state \<Rightarrow> pool_state" where
  "reject_queued [] s = s"
| "reject_queued (w # ws) s = reject_queued ws (call_reject (reject w) ShuttingDown (s\<lparr> queue := ws \<rparr>))"

definition cleanup :: "pool_state \<Rightarrow> pool_state" where
  "cleanup s =
     (let s1 = reject_queued (queue s) s;
          s2 = s1\<lparr> closed := closed s1 @ pool s1 \<rparr>
      in s2\<lparr> pool := [], activeCount := 0 \<rparr>)"

text \<open>A browser loses its connection by itself (the process dies).\<close>

definition crash :: "nat \<Rightarrow> pool_state \<Rightarrow> pool_state" where
  "crash b s = s\<lparr> crashed := crashed s @ [b] \<rparr>"

text \<open>
  What can happen to a pool, one event after the other: the calls of its methods, and
  the events of the world it reacts to. An event is impossible (None) when it names a
  browser that was never launched, a timer that is not armed or a launch that is not in
  flight, or when healthCheck's loop has not ended.
\<close>

datatype pool_op =
    Acquire bool
  | Release nat
  | HealthCheck "bool list"
  | Initialize
  | LaunchLands bool
  | TimerFires nat
  | Crash nat
  | Cleanup

fun step :: "pool_op \<Rightarrow> pool_state \<Rightarrow> pool_state option" where
  "step (Acquire ok) s = Some (snd (acquire ok s))"
| "step (Release b) s = (if b < launched s then Some (release b s) else None)"
| "step (HealthCheck oks) s = map_option snd (healthCheck oks s)"
| "step Initialize s = Some (initialize s)"
| "step (LaunchLands ok) s = (if 0 < pendingLaunches s then Some (launch_lands ok s) else None)"
| "step (TimerFires p) s = (if p \<in> set (timers s) then Some (timer_fires p s) else None)"
| "step (Crash b) s = (if b < launched s then Some (crash b s) else None)"
| "step Cleanup s = Some (cleanup s)"

fun run_ops :: "pool_op list \<Rightarrow> pool_state \<Rightarrow> pool_state option" where
  "run_ops [] s = Some s"
| "run_ops (e # es) s = (case step e s of None \<Rightarrow> None | Some s1 \<Rightarrow> run_ops es s1)"

section \<open>Single scan (scanURL)\<close>

text \<open>
  scanURL(url, options) of the scanner that works on the browser pool. The verdict of
  isPrivateIP(url) is an input (the regular expressions of the SSRF guard are not
  modelled), and so is what each attempt meets: whether a launch made by acquire
  succeeds, what else happens to the pool while the acquire waits in the queue (if it is
  queued; when the promise is still pending after that, its timer fires), whether the
  browser loses its connection during the attempt, and whether the work on the page
  (newPage, goto, the axe analysis, page.close) ends with the axe results or throws an
  error with the given message. formatScanResults is the function \<open>fmt\<close>. Closing
  the page in the catch block does not touch the pool and is left out. The result is
  what the call settles with, the delays it slept through, and the pool afterwards; it
  is None when the inputs do not cover the run (no input left for an attempt, or an
  impossible event while waiting).

  The older scanner (one module-level browser, no pool) has the same loop without the
  calls of acquire and release.
\<close>

definition MAX_RETRIES :: nat where
  "MAX_RETRIES = 3"

datatype attempt_error = PoolFailure pool_error | PageFailure string

datatype 'r scan_result = ScanOk 'r | PrivateUrlError | ScanFailed nat attempt_error | ReturnsUndefined

record 'a attempt_env =
  launch_ok :: bool
  waiting :: "pool_op list"
  crashes :: bool
  page :: "string + 'a"

text \<open>await browserPool.acquire(): the browser, or the error the promise rejects with.\<close>

definition await_acquire ::
  "bool \<Rightarrow> pool_op list \<Rightarrow> pool_state \<Rightarrow> ((pool_error + nat) \<times> pool_state) option" where
  "await_acquire ok others s =
     (case acquire ok s of
        (Got b, s1) \<Rightarrow> Some (Inr b, s1)
      | (Failed e, s1) \<Rightarrow> Some (Inl e, s1)
      | (Queued p, s1) \<Rightarrow>
          (case run_ops others s1 of
             None \<Rightarrow> None
           | Some s2 \<Rightarrow>
               (case settled s2 p of
                  Some (Resolved b) \<Rightarrow> Some (Inr b, s2)
                | Some (Rejected e) \<Rightarrow> Some (Inl e, s2)
                | None \<Rightarrow> Some (Inl AcquireTimeout, timer_fires p s2))))"

text \<open>
  One round of the loop, up to and including the release of the browser: in the try
  block when the page work succeeded, in the catch block (if (browser) release) when it
  threw. When acquire itself threw, browser is null and nothing is released.
\<close>

datatype 'a attempt_outcome = AttemptOk 'a | AttemptFailed attempt_error

definition scan_attempt ::
  "'a attempt_env \<Rightarrow> pool_state \<Rightarrow> ('a attempt_outcome \<times> pool_state) option" where
  "scan_attempt env s =
     (case await_acquire (launch_ok env) (waiting env) s of
        None \<Rightarrow> None
      | Some (Inl e, s1) \<Rightarrow> Some (AttemptFailed (PoolFailure e), s1)
      | Some (Inr browser, s1) \<Rightarrow>
          (let s2 = (if crashes env then crash browser s1 else s1)
           in case page env of
                Inr axeResults \<Rightarrow> Some (AttemptOk axeResults, release browser s2)
              | Inl msg \<Rightarrow> Some (AttemptFailed (PageFailure msg), release browser s2)))"

fun scan_loop ::
  "('a \<Rightarrow> 'r) \<Rightarrow> nat \<Rightarrow> 'a attempt_env list \<Rightarrow> nat list \<Rightarrow> pool_state
     \<Rightarrow> ('r scan_result \<times> nat list \<times> pool_state) option" where
  "scan_loop fmt retries [] slept s =
     (if retries < MAX_RETRIES then None else Some (ReturnsUndefined, slept, s))"
| "scan_loop fmt retries (env # rest) slept s =
     (if retries < MAX_RETRIES then
        (case scan_attempt env s of
           None \<Rightarrow> None
         | Some (AttemptOk axeResults, s1) \<Rightarrow> Some (ScanOk (fmt axeResults), slept, s1)
         | Some (AttemptFailed err, s1) \<Rightarrow>
             (let retries1 = retries + 1
              in if retries1 \<ge> MAX_RETRIES then Some (ScanFailed MAX_RETRIES err, slept, s1)
                 else scan_loop fmt retries1 rest (slept @ [1000 * retries1]) s1))
      else Some (ReturnsUndefined, slept, s))"

definition scanURL ::
  "('a \<Rightarrow> 'r) \<Rightarrow> bool \<Rightarrow> 'a attempt_env list \<Rightarrow> pool_state
     \<Rightarrow> ('r scan_result \<times> nat list \<times> pool_state) option" where
  "scanURL fmt isPrivate envs s =
     (if isPrivate then Some (PrivateUrlError, [], s) else scan_loop fmt 0 envs [] s)"

text \<open>
  Concrete attempts: one whose page work throws while the browser stays connected, and
  one that succeeds; and the pool of one browser after its warm-up launch has landed.
\<close>

definition failing_attempt :: "nat attempt_env" where
  "failing_attempt = \<lparr> launch_ok = True, waiting = [], crashes = False,
                       page = Inl ''Navigation timeout of 30000 ms exceeded'' \<rparr>"

definition passing_attempt :: "nat attempt_env" where
  "passing_attempt = \<lparr> launch_ok = True, waiting = [], crashes = False, page = Inr 7 \<rparr>"

section \<open>Bulk scan (processBulkScan)\<close>

text \<open>
  processBulkScan(batchId, urls, options) takes the targets in waves of
  parseInt(process.env.SCAN_CONCURRENCY) || 3 (a setting that is missing, not a number
  or 0 gives 3; a negative setting is outside this model). Each wave is
  urls.slice(i, i + concurrency); scanURL is called on every target of the wave, and
  Promise.allSettled waits until every one of these calls has settled. A target is given
  here together with what its scan settles with: Inr a value when it fulfils, Inl the
  error's message when it rejects. Fulfilled scans are pushed to results and rejected
  ones to errors, in the order of the wave, and the entry stored under the batch id is
  replaced after each wave. The model returns the entries stored, in order (the one
  stored before the loop, one per wave, the final one), and the waves dispatched. The
  times (totalTime, averageTimePerScan) are left out.
\<close>

datatype bulk_status = Processing | Completed

record 'r bulk_entry =
  b_status :: bulk_status
  b_progress :: nat
  b_total :: nat
  b_results :: "(string \<times> 'r) list"
  b_errors :: "(string \<times> string) list"

type_synonym 'r target = "string \<times> (string + 'r)"

fun fulfilled :: "'r target list \<Rightarrow> (string \<times> 'r) list" where
  "fulfilled [] = []"
| "fulfilled ((url, Inr v) # ts) = (url, v) # fulfilled ts"
| "fulfilled ((url, Inl msg) # ts) = fulfilled ts"

fun rejected :: "'r target list \<Rightarrow> (string \<times> string) list" where
  "rejected [] = []"
| "rejected ((url, Inr v) # ts) = rejected ts"
| "rejected ((url, Inl msg) # ts) = (url, msg) # rejected ts"

function bulk_loop ::
  "nat option \<Rightarrow> nat \<Rightarrow> 'r target list \<Rightarrow> (string \<times> 'r) list \<Rightarrow> (string \<times> string) list
     \<Rightarrow> 'r bulk_entry list \<Rightarrow> string list list
     \<Rightarrow> (string \<times> 'r) list \<times> (string \<times> string) list \<times> 'r bulk_entry list \<times> string list list" where
  "bulk_loop env i urls results errs stored waves =
     (let concurrency = or_default env 3
      in if i < length urls then
           (let batch = take concurrency (drop i urls);
                results1 = results @ fulfilled batch;
                errs1 = errs @ rejected batch;
                entry = \<lparr> b_status = Processing,
                          b_progress = min (i + concurrency) (length urls),
                          b_total = length urls,
                          b_results = results1, b_errors = errs1 \<rparr>
            in bulk_loop env (i + concurrency) urls results1 errs1
                 (stored @ [entry]) (waves @ [map fst batch]))
         else (results, errs, stored, waves))"
  by pat_completeness auto
termination
  by (relation "measure (\<lambda>(env, i, urls, results, errs, stored, waves). length urls - i)")
     (auto simp: or_default_def split: option.splits)

declare bulk_loop.simps [simp del]

definition processBulkScan :: "nat option \<Rightarrow> 'r target list \<Rightarrow> 'r bulk_entry list \<times> string list list" where
  "processBulkScan env urls =
     (let first = \<lparr> b_status = Processing, b_progress = 0, b_total = length urls,
                     b_results = [], b_errors = [] \<rparr>
      in case bulk_loop env 0 urls [] [] [first] [] of
           (results, errs, stored, waves) \<Rightarrow>
             (stored @ [\<lparr> b_status = Completed, b_progress = length urls, b_total = length urls,
                          b_results = results, b_errors = errs \<rparr>],
              waves))"

text \<open>The entry stored after wave k (counted from 1) of a bulk scan of the given targets.\<close>

definition wave_entry :: "nat \<Rightarrow> 'r target list \<Rightarrow> nat \<Rightarrow> 'r bulk_entry" where
  "wave_entry c urls k =
     \<lparr> b_status = Processing, b_progress = min (k * c) (length urls), b_total = length urls,
       b_results = fulfilled (take (k * c) urls), b_errors = rejected (take (k * c) urls) \<rparr>"

text \<open>Ten targets of which the third and the eighth always fail.\<close>

definition ten_targets :: "nat target list" where
  "ten_targets =
     [(''u0'', Inr 0), (''u1'', Inr 1), (''u2'', Inl ''Scan failed after 3 retries: timeout''),
      (''u3'', Inr 3), (''u4'', Inr 4), (''u5'', Inr 5), (''u6'', Inr 6),
      (''u7'', Inl ''Scan failed after 3 retries: net::ERR''), (''u8'', Inr 8), (''u9'', Inr 9)]"

text \<open>
  Every browser the pool has closed or holds idle is one that has been launched. The
  constructor's state has this property and every event keeps it.
\<close>

definition handles_exist :: "pool_state \<Rightarrow> bool" where
  "handles_exist s = ((\<forall>b \<in> set (closed s). b < launched s) \<and> (\<forall>b \<in> set (pool s). b < launched s))"

text \<open>The waiters of a queue whose reject function settles promise p.\<close>

definition rejected_by :: "waiter list \<Rightarrow> nat \<Rightarrow> bool" where
  "rejected_by ws p = (WrappedReject p \<in> reject ` set ws \<or> PromiseReject p \<in> reject ` set ws)"

text \<open>
  Concrete pools used to exercise the theorems below: a pool of exactly one browser as
  the constructor leaves it; that pool after its browser was launched, lent out and has
  crashed; the same with a second acquire waiting in the queue; and the pool with one
  browser lent out and one acquire waiting.
\<close>

definition single_pool :: pool_state where
  "single_pool = new_pool (Some 1) None (Some 1) None"

definition warm_pool :: pool_state where
  "warm_pool = launch_lands True single_pool"

definition crashed_pool :: pool_state where
  "crashed_pool = crash 0 (snd (acquire True (launch_lands True single_pool)))"

definition waiting_pool :: pool_state where
  "waiting_pool = crash 0 (snd (acquire True (snd (acquire True (launch_lands True single_pool)))))"

definition lent_and_queued :: pool_state where
  "lent_and_queued = snd (acquire True (snd (acquire True (launch_lands True single_pool))))"

text \<open>The pool after one and after two attempts of a scan have used and released its browser.\<close>

definition once_used :: pool_state where
  "once_used = release 0 (snd (acquire True warm_pool))"

definition twice_used :: pool_state where
  "twice_used = release 0 (snd (acquire True once_used))"

section \<open>Verified properties\<close>

subsection \<open>Circuit breaker\<close>

lemma fails_exec:
  "fails_with_reason run \<Longrightarrow> \<exists>err. executeWithTimeout run = Inl err \<and> err \<noteq> ThrownNullish"
  by (cases run) (simp_all add: fails_with_reason_def executeWithTimeout_def)

lemma onFailure_reason:
  "err \<noteq> ThrownNullish \<Longrightarrow>
     onFailure now err b =
       (None,
        (let b1 = b\<lparr> totalFailures := totalFailures b + 1, failures := failures b + 1,
                     lastFailTime := Some now \<rparr>
         in if state b1 = HALF_OPEN then transitionTo now OPEN b1
            else if failures b1 \<ge> failureThreshold b1 then transitionTo now OPEN b1
            else b1))"
  by (cases err) (simp_all add: onFailure_def Let_def)

lemma execute_closed_failure:
  assumes "state b = CLOSED" "fails_with_reason run"
  shows "failures (snd (snd (execute t0 t1 run fb b))) = failures b + 1"
    and "failureThreshold (snd (snd (execute t0 t1 run fb b))) = failureThreshold b"
    and "resetTimeout (snd (snd (execute t0 t1 run fb b))) = resetTimeout b"
    and "name (snd (snd (execute t0 t1 run fb b))) = name b"
    and "state (snd (snd (execute t0 t1 run fb b))) =
           (if failures b + 1 \<ge> failureThreshold b then OPEN else CLOSED)"
  using assms fails_exec[OF assms(2)]
  by (auto simp: execute_def enter_def attempt_def onFailure_reason transitionTo_def Let_def
      split: option.splits)

lemma execute_all_closed_failures:
  assumes "state b = CLOSED" "\<forall>c \<in> set cs. fails_with_reason (fst (snd (snd c)))"
      "failures b + length cs < failureThreshold b"
  shows "state (execute_all b cs) = CLOSED \<and> failures (execute_all b cs) = failures b + length cs
     \<and> failureThreshold (execute_all b cs) = failureThreshold b
     \<and> resetTimeout (execute_all b cs) = resetTimeout b \<and> name (execute_all b cs) = name b"
  using assms
proof (induction cs arbitrary: b)
  case Nil
  then show ?case by simp
next
  case (Cons c cs)
  obtain t0 t1 run fb where c: "c = (t0, t1, run, fb)" by (cases c) auto
  let ?b = "snd (snd (execute t0 t1 run fb b))"
  have f: "fails_with_reason run" using Cons.prems(2) c by simp
  have st: "state ?b = CLOSED" using execute_closed_failure(5)[OF Cons.prems(1) f] Cons.prems(3) by simp
  have fl: "failures ?b = failures b + 1" using execute_closed_failure(1)[OF Cons.prems(1) f] by simp
  have th: "failureThreshold ?b = failureThreshold b" using execute_closed_failure(2)[OF Cons.prems(1) f] by simp
  have rt: "resetTimeout ?b = resetTimeout b" using execute_closed_failure(3)[OF Cons.prems(1) f] by simp
  have nm: "name ?b = name b" using execute_closed_failure(4)[OF Cons.prems(1) f] by simp
  have "state (execute_all ?b cs) = CLOSED \<and> failures (execute_all ?b cs) = failures ?b + length cs
     \<and> failureThreshold (execute_all ?b cs) = failureThreshold ?b
     \<and> resetTimeout (execute_all ?b cs) = resetTimeout ?b \<and> name (execute_all ?b cs) = name ?b"
    using Cons.IH[OF st] Cons.prems fl th by simp
  then show ?case using c fl th rt nm by simp
qed

lemma execute_all_append: "execute_all b (xs @ ys) = execute_all (execute_all b xs) ys"
  by (induction xs arbitrary: b) auto

lemma execute_open_rejects:
  assumes "state b = OPEN" "t - lastStateChange b < resetTimeout b"
  shows "execute t t' run None b =
           (Inl (CircuitOpenError (name b)), [],
            b\<lparr> totalRequests := totalRequests b + 1, totalRejections := totalRejections b + 1 \<rparr>)"
  using assms by (simp add: execute_def enter_def shouldAttemptReset_def Let_def)

lemma execute_open_no_action:
  assumes "state b = OPEN" "t - lastStateChange b < resetTimeout b"
  shows "CallAction \<notin> set (fst (snd (execute t t' run fallback b)))"
  using assms by (simp add: execute_def enter_def shouldAttemptReset_def Let_def split: option.splits)

lemmas execute_unfold = execute_def enter_def attempt_def executeWithTimeout_def onSuccess_def
  onFailure_def transitionTo_def shouldAttemptReset_def Let_def




lemma five_failures_run:
  "lastStateChange (execute_all (new_breaker threshold_five 0) five_failures) = 51"
  "resetTimeout (execute_all (new_breaker threshold_five 0) five_failures) = 1000"
  "name (execute_all (new_breaker threshold_five 0) five_failures) = ''grok-ai''"
  by (simp_all add: five_failures_def threshold_five_def new_breaker_def or_default_def
      execute_unfold)




text \<open>
  Outside the reach of \<open>execute_transitions\<close>: a failure that settles when another
  call has already opened the circuit calls transitionTo(OPEN) once more, which counts a
  state change and restarts the reset period; six overlapping failing calls on a fresh
  breaker with threshold 5 do so. And a trial in HALF_OPEN whose action rejects with null
  or undefined leaves the breaker HALF_OPEN.
\<close>

lemma late_failure_reopens:
  assumes "state b = OPEN" "failures b + 1 \<ge> failureThreshold b" "fails_with_reason run"
  shows "stateLog (snd (snd (attempt t1 run fb b))) = stateLog b @ [(OPEN, OPEN)]"
    and "lastStateChange (snd (snd (attempt t1 run fb b))) = t1"
    and "stateChanges (snd (snd (attempt t1 run fb b))) = stateChanges b + 1"
  using assms fails_exec[OF assms(3)]
  by (auto simp: attempt_def onFailure_reason transitionTo_def Let_def split: option.splits)

lemma overlapping_failures_reopen:
  "stateLog (attempt_all (enter_all (new_breaker threshold_five 0) six_failures) six_failures)
     = [(CLOSED, OPEN), (OPEN, OPEN)]"
  "lastStateChange (attempt_all (enter_all (new_breaker threshold_five 0) six_failures) six_failures)
     = 60"
  by (simp_all add: six_failures_def five_failures_def threshold_five_def new_breaker_def
      or_default_def execute_unfold)

lemma nullish_failure_in_half_open:
  "state (snd (snd (execute 2500 2600 (RejectsNullish :: (string, nat) invocation) None
      half_open_breaker))) = HALF_OPEN"
  by (simp add: half_open_breaker_def threshold_five_def new_breaker_def or_default_def
      execute_unfold)


text \<open>
  What holds of the property of C3: a breaker built with failureThreshold = 5 is OPEN
  after five execute calls, none overlapping another, that all fail with a reason (an
  Error, any value other than null and undefined, or the timeout), whatever their times
  and fallbacks. A sixth call made before resetTimeout has passed since that change never
  calls the action; with no fallback it makes no call at all and rejects with the
  circuit-open error, and it only counts the request and the rejection.
\<close>

lemma reasoned_failures_open_circuit:
  assumes "opt_failureThreshold opts = Some 5"
      and "length cs = 5"
      and "\<forall>c \<in> set cs. fails_with_reason (fst (snd (snd c)))"
      and "b5 = execute_all (new_breaker opts t) cs"
      and "t6 - lastStateChange b5 < resetTimeout b5"
  shows "state b5 = OPEN \<and>
         execute t6 t7 run None b5 =
           (Inl (CircuitOpenError (name b5)), [],
            b5\<lparr> totalRequests := totalRequests b5 + 1, totalRejections := totalRejections b5 + 1 \<rparr>) \<and>
         CallAction \<notin> set (fst (snd (execute t6 t7 run fallback b5)))"
proof -
  let ?b0 = "new_breaker opts t"
  have b0: "state ?b0 = CLOSED" "failures ?b0 = 0" "failureThreshold ?b0 = 5"
    using assms(1) by (simp_all add: new_breaker_def or_default_def)
  from assms(2) have ne: "cs \<noteq> []" by auto
  then have split: "cs = butlast cs @ [last cs]" by simp
  obtain t0 t1 r fb where lst: "last cs = (t0, t1, r, fb)" by (cases "last cs") auto
  have "last cs \<in> set cs" using ne by simp
  then have fr: "fails_with_reason r" using assms(3) lst by fastforce
  have fb: "\<forall>c \<in> set (butlast cs). fails_with_reason (fst (snd (snd c)))"
    using assms(3) by (meson in_set_butlastD)
  have len: "length (butlast cs) = 4" using assms(2) by simp
  let ?b4 = "execute_all ?b0 (butlast cs)"
  have b4: "state ?b4 = CLOSED \<and> failures ?b4 = failures ?b0 + length (butlast cs)
     \<and> failureThreshold ?b4 = failureThreshold ?b0
     \<and> resetTimeout ?b4 = resetTimeout ?b0 \<and> name ?b4 = name ?b0"
    by (rule execute_all_closed_failures) (use b0 fb len in simp_all)
  have "execute_all ?b0 cs = execute_all ?b4 [last cs]"
    using split execute_all_append by metis
  then have b5: "b5 = snd (snd (execute t0 t1 r fb ?b4))" using assms(4) lst by simp
  have st4: "state ?b4 = CLOSED" using b4 by simp
  have "state b5 = OPEN"
    using execute_closed_failure(5)[OF st4 fr, of t0 t1 fb] b4 b0 len b5 by simp
  then show ?thesis
    using execute_open_rejects[OF _ assms(5), of t7 run]
      execute_open_no_action[OF _ assms(5), of t7 run fallback] by simp
qed

lemma reasoned_failures_open_circuit_example:
  "state (execute_all (new_breaker threshold_five 0) five_failures) = OPEN
   \<and> fst (execute 1050 1060 (Fulfils (7::nat)) None
        (execute_all (new_breaker threshold_five 0) five_failures))
       = (Inl (CircuitOpenError ''grok-ai'') :: string cb_error + nat)
   \<and> fst (snd (execute 1050 1060 (Fulfils (7::nat)) (None :: (string cb_error + nat) option)
        (execute_all (new_breaker threshold_five 0) five_failures))) = []"
proof -
  have h1: "opt_failureThreshold threshold_five = Some 5" by (simp add: threshold_five_def)
  have h2: "length five_failures = 5" by (simp add: five_failures_def)
  have h3: "\<forall>c \<in> set five_failures. fails_with_reason (fst (snd (snd c)))"
    by (simp add: five_failures_def fails_with_reason_def)
  have h5: "1050 - lastStateChange (execute_all (new_breaker threshold_five 0) five_failures)
        < resetTimeout (execute_all (new_breaker threshold_five 0) five_failures)"
    by (simp add: five_failures_run)
  show ?thesis
    using reasoned_failures_open_circuit[OF h1 h2 h3 refl h5, of 1060
        "Fulfils (7::nat) :: (string, nat) invocation" None]
    by (simp add: five_failures_run)
qed

text \<open>
  C3 fails on the code. When the action rejects with null or undefined, onFailure has
  counted the failure when reading error.message throws, so the threshold is never
  tested: after five such calls on a breaker with failureThreshold = 5 the failure count
  is 5 and the breaker is still CLOSED (each call rejected with the TypeError), and the
  sixth call invokes the action.
\<close>

theorem nullish_failures_leave_circuit_closed:
  "fst (execute 10 11 (RejectsNullish :: (string, nat) invocation) None
         (new_breaker threshold_five 0)) = Inl TypeError
   \<and> state (execute_all (new_breaker threshold_five 0) five_nullish_failures) = CLOSED
   \<and> failures (execute_all (new_breaker threshold_five 0) five_nullish_failures) = 5
   \<and> failureThreshold (execute_all (new_breaker threshold_five 0) five_nullish_failures) = 5
   \<and> fst (execute 60 61 (Fulfils 7 :: (string, nat) invocation) None
         (execute_all (new_breaker threshold_five 0) five_nullish_failures)) = Inr 7
   \<and> fst (snd (execute 60 61 (Fulfils 7 :: (string, nat) invocation) None
         (execute_all (new_breaker threshold_five 0) five_nullish_failures))) = [CallAction]"
  by (simp add: five_nullish_failures_def threshold_five_def new_breaker_def or_default_def
      execute_unfold)

text \<open>
  What holds of the property of C9: when a fallback is supplied, the action is invoked
  (the breaker is CLOSED or HALF_OPEN, or OPEN with the reset period over) and fails with
  a reason, in a call that nothing overlaps, the failure is recorded (the failure count
  and the failure metric go up by one, and the circuit opens from HALF_OPEN or when the
  count reaches failureThreshold), the fallback is called after the action, and execute
  settles with whatever the fallback gives: its value, or its own error, never the error
  of the action.
\<close>

lemma fallback_masks_reasoned_failure:
  assumes "state b \<noteq> OPEN \<or> resetTimeout b \<le> t0 - lastStateChange b"
      and "fails_with_reason run"
  shows "fst (execute t0 t1 run (Some fb) b) = fb
       \<and> fst (snd (execute t0 t1 run (Some fb) b)) = [CallAction, CallFallback]
       \<and> failures (snd (snd (execute t0 t1 run (Some fb) b))) = failures b + 1
       \<and> totalFailures (snd (snd (execute t0 t1 run (Some fb) b))) = totalFailures b + 1
       \<and> totalFallbacks (snd (snd (execute t0 t1 run (Some fb) b))) = totalFallbacks b + 1
       \<and> state (snd (snd (execute t0 t1 run (Some fb) b))) =
           (if state b \<noteq> CLOSED \<or> failures b + 1 \<ge> failureThreshold b then OPEN else CLOSED)"
  using assms fails_exec[OF assms(2)]
  by (cases "state b")
     (auto simp: execute_def enter_def attempt_def onFailure_reason transitionTo_def
        shouldAttemptReset_def Let_def split: option.splits)

text \<open>
  C9 fails on the code. On a CLOSED breaker, a call with a fallback whose action rejects
  with null or undefined counts the failure, but the TypeError thrown in onFailure leaves
  the catch block: the action is the only call made, the fallback is not called and not
  counted, and execute rejects with the TypeError. In HALF_OPEN such a failure does not
  reopen the circuit.
\<close>

theorem nullish_failure_skips_fallback:
  "state (new_breaker threshold_five 0) = CLOSED
   \<and> fst (execute 10 11 (RejectsNullish :: (string, nat) invocation) (Some (Inr 42))
         (new_breaker threshold_five 0)) = Inl TypeError
   \<and> fst (snd (execute 10 11 (RejectsNullish :: (string, nat) invocation) (Some (Inr 42))
         (new_breaker threshold_five 0))) = [CallAction]
   \<and> failures (snd (snd (execute 10 11 (RejectsNullish :: (string, nat) invocation) (Some (Inr 42))
         (new_breaker threshold_five 0)))) = 1
   \<and> totalFallbacks (snd (snd (execute 10 11 (RejectsNullish :: (string, nat) invocation)
         (Some (Inr 42)) (new_breaker threshold_five 0)))) = 0
   \<and> state (snd (snd (execute 2500 2600 (RejectsNullish :: (string, nat) invocation)
         (Some (Inr 42)) half_open_breaker))) = HALF_OPEN"
  by (simp add: half_open_breaker_def threshold_five_def new_breaker_def or_default_def
      execute_unfold)

subsection \<open>Browser pool\<close>

lemma settle_fields [simp]:
  "pool (settle p x s) = pool s" "closed (settle p x s) = closed s" "launched (settle p x s) = launched s"
  "queue (settle p x s) = queue s" "timers (settle p x s) = timers s" "crashed (settle p x s) = crashed s"
  "activeCount (settle p x s) = activeCount s" "pendingLaunches (settle p x s) = pendingLaunches s"
  "minSize (settle p x s) = minSize s" "maxSize (settle p x s) = maxSize s"
  by (simp_all add: settle_def)

lemma clearTimeout_fields [simp]:
  "pool (clearTimeout p s) = pool s" "closed (clearTimeout p s) = closed s" "launched (clearTimeout p s) = launched s"
  "queue (clearTimeout p s) = queue s" "settled (clearTimeout p s) = settled s" "crashed (clearTimeout p s) = crashed s"
  "activeCount (clearTimeout p s) = activeCount s" "pendingLaunches (clearTimeout p s) = pendingLaunches s"
  "minSize (clearTimeout p s) = minSize s" "maxSize (clearTimeout p s) = maxSize s"
  "timers (clearTimeout p s) = removeAll p (timers s)"
  by (simp_all add: clearTimeout_def)

lemma call_resolve_fields [simp]:
  "pool (call_resolve f b s) = pool s" "closed (call_resolve f b s) = closed s"
  "launched (call_resolve f b s) = launched s" "queue (call_resolve f b s) = queue s"
  "crashed (call_resolve f b s) = crashed s" "activeCount (call_resolve f b s) = activeCount s"
  "pendingLaunches (call_resolve f b s) = pendingLaunches s"
  "minSize (call_resolve f b s) = minSize s" "maxSize (call_resolve f b s) = maxSize s"
  by (cases f; simp add: call_resolve_def)+

lemma call_reject_fields [simp]:
  "pool (call_reject f e s) = pool s" "closed (call_reject f e s) = closed s"
  "launched (call_reject f e s) = launched s" "queue (call_reject f e s) = queue s"
  "crashed (call_reject f e s) = crashed s" "activeCount (call_reject f e s) = activeCount s"
  "pendingLaunches (call_reject f e s) = pendingLaunches s"
  "minSize (call_reject f e s) = minSize s" "maxSize (call_reject f e s) = maxSize s"
  by (cases f; simp add: call_reject_def)+

lemma handles_exist_cong:
  "closed s' = closed s \<Longrightarrow> pool s' = pool s \<Longrightarrow> launched s' = launched s \<Longrightarrow>
   handles_exist s' = handles_exist s"
  by (simp add: handles_exist_def)

lemma acquire_got:
  "handles_exist s \<Longrightarrow> acquire ok s = (r, s') \<Longrightarrow>
     handles_exist s' \<and> (\<forall>h. r = Got h \<longrightarrow> h \<notin> set (closed s') \<and> h < launched s')
     \<and> settled s' = settled s"
proof (induction ok s arbitrary: r s' rule: acquire.induct)
  case (1 ok s)
  let ?s1 = "s\<lparr> totalAcquired := totalAcquired s + 1 \<rparr>"
  show ?case
  proof (cases "pool s = []")
    case True
    with "1.prems" show ?thesis
      by (auto simp: acquire.simps[of ok s] Let_def createBrowser_def handles_exist_def less_Suc_eq
          split: if_splits)
  next
    case False
    let ?b = "last (pool ?s1)"
    let ?s2 = "?s1\<lparr> pool := butlast (pool ?s1), activeCount := activeCount ?s1 + 1 \<rparr>"
    show ?thesis
    proof (cases "isConnected ?s2 ?b")
      case True
      with False "1.prems" show ?thesis
        by (auto simp: acquire.simps[of ok s] Let_def handles_exist_def isConnected_def
            dest!: in_set_butlastD)
    next
      case nc: False
      let ?s3 = "(close_browser ?b ?s2)\<lparr> activeCount := activeCount ?s2 - 1, totalDestroyed := totalDestroyed ?s2 + 1 \<rparr>"
      have bl: "?b < launched s" using False "1.prems"(1) by (simp add: handles_exist_def)
      have he: "handles_exist ?s3"
        using "1.prems"(1) bl by (auto simp: handles_exist_def close_browser_def dest!: in_set_butlastD)
      have eq: "acquire ok ?s3 = (r, s')"
        using "1.prems"(2) False nc by (simp add: acquire.simps[of ok s] Let_def)
      have "handles_exist s' \<and> (\<forall>h. r = Got h \<longrightarrow> h \<notin> set (closed s') \<and> h < launched s')
            \<and> settled s' = settled ?s3"
        using "1.IH"[OF refl _ refl refl _ he eq] False nc by simp
      then show ?thesis by (simp add: close_browser_def)
    qed
  qed
qed


lemma acquire_settled: "settled (snd (acquire ok s)) = settled s"
proof (induction ok s rule: acquire.induct)
  case (1 ok s)
  let ?s1 = "s\<lparr> totalAcquired := totalAcquired s + 1 \<rparr>"
  let ?b = "last (pool ?s1)"
  let ?s2 = "?s1\<lparr> pool := butlast (pool ?s1), activeCount := activeCount ?s1 + 1 \<rparr>"
  let ?s3 = "(close_browser ?b ?s2)\<lparr> activeCount := activeCount ?s2 - 1, totalDestroyed := totalDestroyed ?s2 + 1 \<rparr>"
  show ?case
  proof (cases "pool s = []")
    case True
    then show ?thesis
      by (simp add: acquire.simps[of ok s] Let_def createBrowser_def)
  next
    case False
    show ?thesis
    proof (cases "isConnected ?s2 ?b")
      case True
      with False show ?thesis by (simp add: acquire.simps[of ok s] Let_def)
    next
      case nc: False
      have eq: "acquire ok s = acquire ok ?s3"
        using False nc by (simp add: acquire.simps[of ok s] Let_def)
      have "settled (snd (acquire ok ?s3)) = settled ?s3"
        using False nc by (intro "1.IH"[OF refl _ refl refl]) simp_all
      then show ?thesis unfolding eq by (simp add: close_browser_def)
    qed
  qed
qed

lemma release_handles: "handles_exist s \<Longrightarrow> b < launched s \<Longrightarrow> handles_exist (release b s)"
  by (auto simp: release_def Let_def handles_exist_def close_browser_def isConnected_def)

lemma remove_unhealthy_fields:
  "launched (remove_unhealthy bs s) = launched s \<and> settled (remove_unhealthy bs s) = settled s
   \<and> queue (remove_unhealthy bs s) = queue s \<and> timers (remove_unhealthy bs s) = timers s
   \<and> closed (remove_unhealthy bs s) = closed s @ bs
   \<and> set (pool (remove_unhealthy bs s)) \<subseteq> set (pool s)"
proof (induction bs arbitrary: s)
  case Nil
  then show ?case by simp
next
  case (Cons b bs)
  let ?s = "(close_browser b (s\<lparr> pool := remove1 b (pool s) \<rparr>))\<lparr> totalDestroyed := totalDestroyed s + 1 \<rparr>"
  have "set (pool ?s) \<subseteq> set (pool s)" by (simp add: close_browser_def set_remove1_subset)
  with Cons.IH[of ?s] show ?case by (auto simp: close_browser_def)
qed

lemma replenish_fields:
  "replenish oks s = Some s' \<Longrightarrow>
     settled s' = settled s \<and> queue s' = queue s \<and> timers s' = timers s \<and> closed s' = closed s
     \<and> launched s \<le> launched s' \<and> (handles_exist s \<longrightarrow> handles_exist s')"
proof (induction oks arbitrary: s)
  case Nil
  then show ?case by (simp split: if_splits)
next
  case (Cons ok oks)
  show ?case
  proof (cases "int (length (pool s)) + activeCount s < int (minSize s)")
    case True
    let ?s = "snd (createBrowser ok s)"
    have r: "replenish oks ?s = Some s'" using Cons.prems True by simp
    have a: "settled ?s = settled s \<and> queue ?s = queue s \<and> timers ?s = timers s \<and> closed ?s = closed s
      \<and> launched s \<le> launched ?s \<and> (handles_exist s \<longrightarrow> handles_exist ?s)"
      by (auto simp: createBrowser_def handles_exist_def less_Suc_eq)
    from Cons.IH[OF r] a show ?thesis by auto
  next
    case False
    with Cons.prems show ?thesis by simp
  qed
qed

lemma healthCheck_fields:
  assumes "healthCheck oks s = Some (r, s')"
  shows "settled s' = settled s \<and> queue s' = queue s \<and> timers s' = timers s
         \<and> (handles_exist s \<longrightarrow> handles_exist s')"
proof -
  let ?bs = "filter (\<lambda>b. \<not> isConnected s b) (pool s)"
  let ?s1 = "remove_unhealthy ?bs s"
  have f: "launched ?s1 = launched s \<and> settled ?s1 = settled s
   \<and> queue ?s1 = queue s \<and> timers ?s1 = timers s
   \<and> closed ?s1 = closed s @ ?bs
   \<and> set (pool ?s1) \<subseteq> set (pool s)"
    by (rule remove_unhealthy_fields)
  have h1: "handles_exist s \<longrightarrow> handles_exist ?s1"
    using f by (auto simp: handles_exist_def)
  show ?thesis
  proof (cases "?bs = []")
    case True
    with assms have "s' = ?s1" by (auto simp: healthCheck_def Let_def)
    with f h1 show ?thesis by simp
  next
    case False
    with assms have "replenish oks ?s1 = Some s'" by (auto simp: healthCheck_def Let_def)
    from replenish_fields[OF this] f h1 show ?thesis by simp
  qed
qed

lemma reject_queued_fields:
  "pool (reject_queued ws s) = pool s \<and> closed (reject_queued ws s) = closed s
   \<and> launched (reject_queued ws s) = launched s \<and> crashed (reject_queued ws s) = crashed s
   \<and> pendingLaunches (reject_queued ws s) = pendingLaunches s
   \<and> activeCount (reject_queued ws s) = activeCount s
   \<and> queue (reject_queued ws s) = (if ws = [] then queue s else [])"
proof (induction ws arbitrary: s)
  case Nil
  then show ?case by simp
next
  case (Cons w ws)
  from Cons.IH[of "call_reject (reject w) ShuttingDown (s\<lparr> queue := ws \<rparr>)"]
  show ?case by simp
qed

lemma settle_rejected:
  "settled (settle p (Rejected e) s) q = Some (Resolved h) \<Longrightarrow> settled s q = Some (Resolved h)"
  by (auto simp: settle_def split: if_splits)

lemma call_reject_resolved:
  "settled (call_reject f e s) q = Some (Resolved h) \<Longrightarrow> settled s q = Some (Resolved h)"
  by (cases f) (auto simp: call_reject_def dest!: settle_rejected)

lemma reject_queued_resolved:
  "settled (reject_queued ws s) q = Some (Resolved h) \<Longrightarrow> settled s q = Some (Resolved h)"
proof (induction ws arbitrary: s)
  case Nil
  then show ?case by simp
next
  case (Cons w ws)
  from Cons.IH[of "call_reject (reject w) ShuttingDown (s\<lparr> queue := ws \<rparr>)"] Cons.prems
  have "settled (call_reject (reject w) ShuttingDown (s\<lparr> queue := ws \<rparr>)) q = Some (Resolved h)" by simp
  from call_reject_resolved[OF this] show ?case by simp
qed

lemma cleanup_handles: "handles_exist s \<Longrightarrow> handles_exist (cleanup s)"
  using reject_queued_fields[of "queue s" s]
  by (auto simp: cleanup_def Let_def handles_exist_def)

lemma timer_fires_handles: "handles_exist s \<Longrightarrow> handles_exist (timer_fires p s)"
  by (auto simp: timer_fires_def Let_def handles_exist_def split: option.splits)

lemma step_handles: "handles_exist s \<Longrightarrow> step e s = Some s' \<Longrightarrow> handles_exist s'"
proof (cases e)
  case (Acquire ok)
  assume "handles_exist s" "step e s = Some s'"
  with Acquire acquire_got[of s ok "fst (acquire ok s)" "snd (acquire ok s)"] show ?thesis by auto
next
  case (Release b)
  assume "handles_exist s" "step e s = Some s'"
  with Release release_handles[of s b] show ?thesis by (auto split: if_splits)
next
  case (HealthCheck oks)
  assume "handles_exist s" "step e s = Some s'"
  with HealthCheck healthCheck_fields[of oks s] show ?thesis by auto
next
  case Initialize
  assume "handles_exist s" "step e s = Some s'"
  with Initialize show ?thesis by (auto simp: initialize_def handles_exist_def)
next
  case (LaunchLands ok)
  assume "handles_exist s" "step e s = Some s'"
  with LaunchLands show ?thesis
    by (auto simp: launch_lands_def createBrowser_def handles_exist_def less_Suc_eq split: if_splits)
next
  case (TimerFires p)
  assume "handles_exist s" "step e s = Some s'"
  with TimerFires timer_fires_handles[of s p] show ?thesis by (auto split: if_splits)
next
  case (Crash b)
  assume "handles_exist s" "step e s = Some s'"
  with Crash show ?thesis by (auto simp: crash_def handles_exist_def split: if_splits)
next
  case Cleanup
  assume "handles_exist s" "step e s = Some s'"
  with Cleanup cleanup_handles[of s] show ?thesis by auto
qed

lemma run_ops_handles: "handles_exist s \<Longrightarrow> run_ops es s = Some s' \<Longrightarrow> handles_exist s'"
proof (induction es arbitrary: s)
  case Nil
  then show ?case by simp
next
  case (Cons e es)
  then show ?case by (auto split: option.splits dest: step_handles)
qed

lemmas pool_eval = single_pool_def new_pool_def initialize_def first_truthy_def or_default_def
  launch_lands_def createBrowser_def acquire.simps release_def timer_fires_def crash_def cleanup_def
  isConnected_def close_browser_def settle_def clearTimeout_def call_resolve_def call_reject_def
  splice1_def healthCheck_def Let_def

text \<open>
  C1 fails on the code. With minSize = maxSize = 1: the browser lent out crashes and is
  released, so release starts a replacement launch without waiting for it; the next
  acquire finds the pool empty and activeCount below maxSize and launches a browser of
  its own; when the replacement lands there is one active and one idle browser, two
  against a maxSize of one. With the default sizes (2 and 5), five acquire calls made
  before the constructor's two launches have landed end with five active and two idle
  browsers.
\<close>

theorem pool_exceeds_maxSize:
  "map_option (\<lambda>s. (pool s, activeCount s, maxSize s))
     (run_ops [LaunchLands True, Acquire True, Crash 0, Release 0, Acquire True, LaunchLands True]
        single_pool) = Some ([2], 1, 1)
   \<and> map_option (\<lambda>s. (pool s, activeCount s, maxSize s))
     (run_ops [Acquire True, Acquire True, Acquire True, Acquire True, Acquire True,
               LaunchLands True, LaunchLands True]
        (new_pool None None None None)) = Some ([5, 6], 5, 5)"
  by (simp add: pool_eval)

text \<open>
  C4 fails on the code. The timer of a queued acquire looks for the queue entry whose
  resolve is the promise's own resolve, but the entry holds the closure built around it,
  so no entry is ever found: the promise is rejected with the timeout error and its
  entry stays in the queue. A browser released afterwards is handed to that dead entry:
  it counts as active again, reaches nobody, and the acquire queued behind it is not
  served.
\<close>

theorem timed_out_waiter_stays_queued:
  "map_option (\<lambda>s. (settled s 0, queue s, timers s))
     (run_ops [LaunchLands True, Acquire True, Acquire True, TimerFires 0] single_pool)
     = Some (Some (Rejected AcquireTimeout),
             [\<lparr> resolve = WrappedResolve 0, reject = WrappedReject 0 \<rparr>], [])
   \<and> map_option (\<lambda>s. (settled s 0, settled s 1, pool s, activeCount s, queue s))
     (run_ops [LaunchLands True, Acquire True, Acquire True, TimerFires 0, Acquire True, Release 0]
        single_pool)
     = Some (Some (Rejected AcquireTimeout), None, [], 1,
             [\<lparr> resolve = WrappedResolve 1, reject = WrappedReject 1 \<rparr>])"
  by (simp add: pool_eval)

text \<open>
  C8 as stated fails: with one browser lent out, cleanup returns with that browser
  still connected and not closed, and with activeCount already 0.
\<close>

theorem cleanup_leaves_active_counterexample:
  "fst (acquire True (launch_lands True single_pool)) = Got 0
   \<and> isConnected (cleanup (snd (acquire True (launch_lands True single_pool)))) 0
   \<and> closed (cleanup (snd (acquire True (launch_lands True single_pool)))) = []
   \<and> activeCount (cleanup (snd (acquire True (launch_lands True single_pool)))) = 0"
  by (simp add: pool_eval)

lemma call_resolve_settled:
  "settled (call_resolve f b s) p = Some (Resolved h) \<Longrightarrow> settled s p = None \<Longrightarrow> h = b"
  by (cases f) (auto simp: call_resolve_def settle_def clearTimeout_def split: if_splits)

lemma release_unhealthy:
  assumes "\<not> isConnected s b"
  shows "pool (release b s) = pool s" "queue (release b s) = queue s"
    "settled (release b s) = settled s" "timers (release b s) = timers s"
    "closed (release b s) = closed s @ [b]"
    "pendingLaunches (release b s) = pendingLaunches s +
       (if int (length (pool s)) + (activeCount s - 1) < int (minSize s) then 1 else 0)"
  using assms by (simp_all add: release_def Let_def isConnected_def close_browser_def)

lemma release_resolves:
  assumes "settled s p = None" "settled (release b s) p = Some (Resolved h)"
  shows "h = b \<and> isConnected s b \<and> queue s \<noteq> [] \<and> closed (release b s) = closed s"
proof (cases "isConnected s b")
  case False
  with assms release_unhealthy(3)[OF False] show ?thesis by simp
next
  case True
  let ?s1 = "s\<lparr> totalReleased := totalReleased s + 1, activeCount := activeCount s - 1 \<rparr>"
  have c: "isConnected ?s1 b" using True by (simp add: isConnected_def)
  show ?thesis
  proof (cases "queue s = []")
    case qe: True
    with c assms show ?thesis by (auto simp: release_def Let_def close_browser_def split: if_splits)
  next
    case qn: False
    let ?s2 = "?s1\<lparr> queue := tl (queue ?s1), activeCount := activeCount ?s1 + 1 \<rparr>"
    have r: "release b s = call_resolve (resolve (hd (queue s))) b ?s2"
      using c qn by (simp add: release_def Let_def)
    have "h = b" using call_resolve_settled[of "resolve (hd (queue s))" b ?s2 p h] assms r by simp
    then show ?thesis using True qn r by simp
  qed
qed

lemma remove_unhealthy_settled: "settled (remove_unhealthy bs s) = settled s"
  using remove_unhealthy_fields[of bs s] by simp

lemma timer_fires_resolved:
  "settled (timer_fires q s) p = Some (Resolved h) \<Longrightarrow> settled s p = Some (Resolved h)"
  by (auto simp: timer_fires_def Let_def call_reject_def settle_def split: option.splits if_splits)

lemma cleanup_resolved:
  "settled (cleanup s) p = Some (Resolved h) \<Longrightarrow> settled s p = Some (Resolved h)"
  using reject_queued_resolved[of "queue s" s p h] by (simp add: cleanup_def Let_def)

lemma step_resolves:
  assumes "step e s = Some s'" "settled s p = None" "settled s' p = Some (Resolved h)"
  shows "e = Release h \<and> isConnected s h \<and> queue s \<noteq> [] \<and> closed s' = closed s"
proof (cases e)
  case (Acquire ok)
  with assms acquire_settled[of ok s] show ?thesis by auto
next
  case (Release b)
  with assms release_resolves[of s p b h] show ?thesis by (auto split: if_splits)
next
  case (HealthCheck oks)
  with assms healthCheck_fields[of oks s] show ?thesis by auto
next
  case Initialize
  with assms show ?thesis by (auto simp: initialize_def)
next
  case (LaunchLands ok)
  with assms show ?thesis by (auto simp: launch_lands_def createBrowser_def split: if_splits)
next
  case (TimerFires q)
  with assms timer_fires_resolved[of q s p h] show ?thesis by (auto split: if_splits)
next
  case (Crash b)
  with assms show ?thesis by (auto simp: crash_def split: if_splits)
next
  case Cleanup
  with assms cleanup_resolved[of s p h] show ?thesis by auto
qed

text \<open>
  C5. In every state the pool can reach, releasing a browser that is not connected
  leaves the idle list as it was, closes the browser, and starts a replacement launch
  (not awaited) exactly when the idle count plus the decremented active count is below
  minSize. No acquire returns a browser that has been closed, and no queued acquire is
  resolved with one.
\<close>

theorem unhealthy_release_destroys:
  assumes "handles_exist s0" and "run_ops es s0 = Some s"
  shows "(\<not> isConnected s b \<longrightarrow>
            pool (release b s) = pool s \<and> b \<in> set (closed (release b s)) \<and>
            pendingLaunches (release b s) = pendingLaunches s +
              (if int (length (pool s)) + (activeCount s - 1) < int (minSize s) then 1 else 0))
       \<and> (\<forall>ok h s'. acquire ok s = (Got h, s') \<longrightarrow> h \<notin> set (closed s'))
       \<and> (\<forall>e s' p h. step e s = Some s' \<and> settled s p = None \<and> settled s' p = Some (Resolved h)
             \<longrightarrow> h \<notin> set (closed s'))"
proof -
  have he: "handles_exist s" using assms by (rule run_ops_handles)
  have a: "\<not> isConnected s b \<longrightarrow>
            pool (release b s) = pool s \<and> b \<in> set (closed (release b s)) \<and>
            pendingLaunches (release b s) = pendingLaunches s +
              (if int (length (pool s)) + (activeCount s - 1) < int (minSize s) then 1 else 0)"
    using release_unhealthy[of s b] by simp
  have b: "\<forall>ok h s'. acquire ok s = (Got h, s') \<longrightarrow> h \<notin> set (closed s')"
    using acquire_got[OF he] by blast
  have c: "\<forall>e s' p h. step e s = Some s' \<and> settled s p = None \<and> settled s' p = Some (Resolved h)
             \<longrightarrow> h \<notin> set (closed s')"
  proof (intro allI impI)
    fix e s' p h
    assume "step e s = Some s' \<and> settled s p = None \<and> settled s' p = Some (Resolved h)"
    then have "isConnected s h \<and> closed s' = closed s" using step_resolves by blast
    then show "h \<notin> set (closed s')" by (simp add: isConnected_def)
  qed
  from a b c show ?thesis by blast
qed

theorem unhealthy_release_destroys_witness:
  "handles_exist single_pool
   \<and> run_ops [LaunchLands True, Acquire True, Crash 0] single_pool = Some crashed_pool
   \<and> \<not> isConnected crashed_pool 0
   \<and> pool (release 0 crashed_pool) = pool crashed_pool
   \<and> 0 \<in> set (closed (release 0 crashed_pool))
   \<and> pendingLaunches (release 0 crashed_pool) = 1"
proof -
  have h1: "handles_exist single_pool" by (simp add: handles_exist_def pool_eval)
  have h2: "run_ops [LaunchLands True, Acquire True, Crash 0] single_pool = Some crashed_pool"
    by (simp add: crashed_pool_def pool_eval)
  have h3: "\<not> isConnected crashed_pool 0" by (simp add: crashed_pool_def pool_eval)
  have v: "pendingLaunches crashed_pool = 0" "pool crashed_pool = []" "activeCount crashed_pool = 1"
    "minSize crashed_pool = 1"
    by (simp_all add: crashed_pool_def pool_eval)
  show ?thesis
    using unhealthy_release_destroys[OF h1 h2, of 0] h1 h2 h3 v by simp
qed

lemma launch_lands_fields:
  "queue (launch_lands ok s) = queue s" "settled (launch_lands ok s) = settled s"
  "timers (launch_lands ok s) = timers s"
  "pool (launch_lands ok s) = (if ok then pool s @ [launched s] else pool s)"
  by (simp_all add: launch_lands_def createBrowser_def)

lemma starved_waiter_run:
  "map_option (\<lambda>s. (pool s, settled s 0, map resolve (queue s)))
       (run_ops [LaunchLands True, Acquire True, Acquire True, Crash 0, Release 0, LaunchLands True]
          single_pool) = Some ([1], None, [WrappedResolve 0])"
  "map_option (\<lambda>s. (pool s, settled s 0))
       (run_ops [LaunchLands True, Acquire True, Acquire True, Crash 0, Release 0, LaunchLands True,
                 TimerFires 0] single_pool) = Some ([1], Some (Rejected AcquireTimeout))"
  by (simp_all add: pool_eval)

text \<open>
  C10. Releasing a browser that is not connected leaves the queue, the promises and
  their timers as they were: the browser is closed and at most one replacement launch is
  started. When such a launch lands, the new browser is appended to the idle list and
  again no promise is settled. A pending acquire is resolved only by the release of a
  connected browser. So a queued acquire can time out while an idle browser is there:
  in a pool of one browser, the replacement for a crashed browser lands in the idle list
  while the waiter stays pending, and the waiter's timer then rejects it.
\<close>

theorem unhealthy_release_keeps_queue:
  "(\<not> isConnected s b \<longrightarrow>
       queue (release b s) = queue s \<and> settled (release b s) = settled s
       \<and> timers (release b s) = timers s \<and> pool (release b s) = pool s
       \<and> closed (release b s) = closed s @ [b]
       \<and> pendingLaunches (release b s) \<le> pendingLaunches s + 1)
   \<and> queue (launch_lands ok s) = queue s \<and> settled (launch_lands ok s) = settled s
   \<and> timers (launch_lands ok s) = timers s
   \<and> pool (launch_lands ok s) = (if ok then pool s @ [launched s] else pool s)
   \<and> (step e s = Some s' \<and> settled s p = None \<and> settled s' p = Some (Resolved h)
        \<longrightarrow> e = Release h \<and> isConnected s h)
   \<and> map_option (\<lambda>s. (pool s, settled s 0, map resolve (queue s)))
       (run_ops [LaunchLands True, Acquire True, Acquire True, Crash 0, Release 0, LaunchLands True]
          single_pool) = Some ([1], None, [WrappedResolve 0])
   \<and> map_option (\<lambda>s. (pool s, settled s 0))
       (run_ops [LaunchLands True, Acquire True, Acquire True, Crash 0, Release 0, LaunchLands True,
                 TimerFires 0] single_pool) = Some ([1], Some (Rejected AcquireTimeout))"
proof -
  have a: "\<not> isConnected s b \<longrightarrow>
       queue (release b s) = queue s \<and> settled (release b s) = settled s
       \<and> timers (release b s) = timers s \<and> pool (release b s) = pool s
       \<and> closed (release b s) = closed s @ [b]
       \<and> pendingLaunches (release b s) \<le> pendingLaunches s + 1"
    using release_unhealthy[of s b] by simp
  have c: "step e s = Some s' \<and> settled s p = None \<and> settled s' p = Some (Resolved h)
        \<longrightarrow> e = Release h \<and> isConnected s h"
    using step_resolves[of e s s' p h] by blast
  show ?thesis using a c launch_lands_fields[of ok s] starved_waiter_run by simp
qed

theorem unhealthy_release_keeps_queue_witness:
  "\<not> isConnected waiting_pool 0
   \<and> queue waiting_pool = [\<lparr> resolve = WrappedResolve 0, reject = WrappedReject 0 \<rparr>]
   \<and> queue (release 0 waiting_pool) = queue waiting_pool
   \<and> settled (release 0 waiting_pool) 0 = None
   \<and> closed (release 0 waiting_pool) = [0]"
proof -
  have h: "\<not> isConnected waiting_pool 0" by (simp add: waiting_pool_def pool_eval)
  have v: "queue waiting_pool = [\<lparr> resolve = WrappedResolve 0, reject = WrappedReject 0 \<rparr>]"
    "settled waiting_pool 0 = None" "closed waiting_pool = []"
    by (simp_all add: waiting_pool_def pool_eval)
  show ?thesis
    using unhealthy_release_keeps_queue[of waiting_pool 0] h v by simp
qed

lemma call_reject_settled:
  "settled (call_reject f e s) p =
     (if (f = WrappedReject p \<or> f = PromiseReject p) \<and> settled s p = None
      then Some (Rejected e) else settled s p)"
  by (cases f) (auto simp: call_reject_def settle_def clearTimeout_def)

lemma call_reject_timers:
  "timers (call_reject f e s) = filter (\<lambda>p. f \<noteq> WrappedReject p) (timers s)"
  by (cases f) (auto simp: call_reject_def settle_def clearTimeout_def removeAll_filter_not_eq
      intro: filter_cong)

lemma reject_queued_settled:
  "settled (reject_queued ws s) p =
     (if rejected_by ws p \<and> settled s p = None then Some (Rejected ShuttingDown) else settled s p)"
proof (induction ws arbitrary: s)
  case Nil
  then show ?case by (simp add: rejected_by_def)
next
  case (Cons w ws)
  show ?case
    using Cons.IH[of "call_reject (reject w) ShuttingDown (s\<lparr> queue := ws \<rparr>)"]
    by (auto simp: call_reject_settled rejected_by_def)
qed

lemma reject_queued_timers:
  "timers (reject_queued ws s) = filter (\<lambda>p. WrappedReject p \<notin> reject ` set ws) (timers s)"
proof (induction ws arbitrary: s)
  case Nil
  then show ?case by simp
next
  case (Cons w ws)
  show ?case
    using Cons.IH[of "call_reject (reject w) ShuttingDown (s\<lparr> queue := ws \<rparr>)"]
    by (auto simp: call_reject_timers intro: filter_cong)
qed

text \<open>
  C8, as the code has it. cleanup calls the reject of every queue entry with the
  shutdown error (a promise not yet settled is rejected with it, and its timer is
  cancelled), empties the queue, closes exactly the idle browsers, empties the idle list
  and sets activeCount to 0, at once. A browser that is not idle, in particular one that
  is lent out, is as connected afterwards as it was before.
\<close>

theorem cleanup_effect:
  "queue (cleanup s) = [] \<and> pool (cleanup s) = [] \<and> activeCount (cleanup s) = 0
   \<and> closed (cleanup s) = closed s @ pool s
   \<and> crashed (cleanup s) = crashed s \<and> launched (cleanup s) = launched s
   \<and> pendingLaunches (cleanup s) = pendingLaunches s
   \<and> settled (cleanup s) p =
        (if rejected_by (queue s) p \<and> settled s p = None
         then Some (Rejected ShuttingDown) else settled s p)
   \<and> (WrappedReject p \<in> reject ` set (queue s) \<longrightarrow> p \<notin> set (timers (cleanup s)))
   \<and> (b \<notin> set (pool s) \<longrightarrow> isConnected (cleanup s) b = isConnected s b)"
  using reject_queued_fields[of "queue s" s] reject_queued_settled[of "queue s" s p]
    reject_queued_timers[of "queue s" s]
  by (auto simp: cleanup_def Let_def isConnected_def)

theorem cleanup_effect_witness:
  "WrappedReject 0 \<in> reject ` set (queue lent_and_queued)
   \<and> 0 \<notin> set (timers (cleanup lent_and_queued))
   \<and> settled (cleanup lent_and_queued) 0 = Some (Rejected ShuttingDown)
   \<and> 0 \<notin> set (pool lent_and_queued)
   \<and> isConnected lent_and_queued 0
   \<and> isConnected (cleanup lent_and_queued) 0"
proof -
  have v: "queue lent_and_queued = [\<lparr> resolve = WrappedResolve 0, reject = WrappedReject 0 \<rparr>]"
    "pool lent_and_queued = []" "settled lent_and_queued 0 = None" "isConnected lent_and_queued 0"
    by (simp_all add: lent_and_queued_def pool_eval)
  show ?thesis
    using cleanup_effect[of lent_and_queued 0 0] v by (simp add: rejected_by_def)
qed

subsection \<open>Bulk scan\<close>

lemma fulfilled_append: "fulfilled (xs @ ys) = fulfilled xs @ fulfilled ys"
  by (induction xs rule: fulfilled.induct) simp_all

lemma rejected_append: "rejected (xs @ ys) = rejected xs @ rejected ys"
  by (induction xs rule: rejected.induct) simp_all

lemma fulfilled_rejected_length: "length (fulfilled xs) + length (rejected xs) = length xs"
  by (induction xs rule: fulfilled.induct) simp_all

lemma or_default_pos: "0 < d \<Longrightarrow> 0 < or_default env d"
  by (simp add: or_default_def split: option.splits)

lemma concat_waves: "concat (map (\<lambda>j. take c (drop (j * c) xs)) [0..<m]) = take (m * c) xs"
proof (induction m)
  case 0
  then show ?case by simp
next
  case (Suc m)
  have "take (m * c + c) xs = take (m * c) xs @ take c (drop (m * c) xs)"
    by (simp add: take_add)
  with Suc show ?case by (simp add: add.commute)
qed

lemma bulk_loop_inv:
  assumes "bulk_loop env i urls results errs stored waves = (R, E, S, W)"
      and "c = or_default env 3"
      and "i = k * c"
      and "results = fulfilled (take i urls)"
      and "errs = rejected (take i urls)"
      and "waves = map (\<lambda>j. map fst (take c (drop (j * c) urls))) [0..<k]"
      and "stored = pre @ map (wave_entry c urls) [1..<Suc k]"
  shows "\<exists>m. k \<le> m \<and> length urls \<le> m * c \<and> (m = k \<or> (m - 1) * c < length urls)
           \<and> R = fulfilled urls \<and> E = rejected urls
           \<and> W = map (\<lambda>j. map fst (take c (drop (j * c) urls))) [0..<m]
           \<and> S = pre @ map (wave_entry c urls) [1..<Suc m]"
  using assms
proof (induction env i urls results errs stored waves arbitrary: k rule: bulk_loop.induct)
  case (1 env i urls results errs stored waves)
  show ?case
  proof (cases "i < length urls")
    case False
    then have "bulk_loop env i urls results errs stored waves = (results, errs, stored, waves)"
      by (simp add: bulk_loop.simps[of env i urls] Let_def)
    with "1.prems" False have "R = fulfilled urls" "E = rejected urls" "S = stored" "W = waves"
      by simp_all
    with "1.prems" False show ?thesis by (intro exI[of _ k]) simp
  next
    case True
    let ?batch = "take c (drop i urls)"
    let ?results1 = "results @ fulfilled ?batch"
    let ?errs1 = "errs @ rejected ?batch"
    let ?entry = "\<lparr> b_status = Processing, b_progress = min (i + c) (length urls),
                    b_total = length urls, b_results = ?results1, b_errors = ?errs1 \<rparr>"
    have tk: "take (i + c) urls = take i urls @ ?batch" by (simp add: take_add)
    have r1: "?results1 = fulfilled (take (i + c) urls)"
      using "1.prems"(4) tk by (simp add: fulfilled_append)
    have e1: "?errs1 = rejected (take (i + c) urls)"
      using "1.prems"(5) tk by (simp add: rejected_append)
    have ic: "i + c = Suc k * c" using "1.prems"(3) by simp
    have ent: "?entry = wave_entry c urls (Suc k)"
      using r1 e1 ic by (simp add: wave_entry_def add.commute)
    have st: "stored @ [?entry] = pre @ map (wave_entry c urls) [1..<Suc (Suc k)]"
      using "1.prems"(7) ent by simp
    have wv: "waves @ [map fst ?batch] = map (\<lambda>j. map fst (take c (drop (j * c) urls))) [0..<Suc k]"
      using "1.prems"(6) "1.prems"(3) by simp
    have step: "bulk_loop env (i + c) urls ?results1 ?errs1 (stored @ [?entry]) (waves @ [map fst ?batch])
                  = (R, E, S, W)"
      using "1.prems"(1) True "1.prems"(2) by (simp add: bulk_loop.simps[of env i urls] Let_def)
    have "\<exists>m. Suc k \<le> m \<and> length urls \<le> m * c \<and> (m = Suc k \<or> (m - 1) * c < length urls)
           \<and> R = fulfilled urls \<and> E = rejected urls
           \<and> W = map (\<lambda>j. map fst (take c (drop (j * c) urls))) [0..<m]
           \<and> S = pre @ map (wave_entry c urls) [1..<Suc m]"
      using "1.IH"[OF "1.prems"(2) True refl refl refl refl, of "Suc k"]
        step "1.prems"(2) ic r1 e1 wv st
      by simp
    then obtain m where m: "Suc k \<le> m" "length urls \<le> m * c"
        "m = Suc k \<or> (m - 1) * c < length urls"
        "R = fulfilled urls" "E = rejected urls"
        "W = map (\<lambda>j. map fst (take c (drop (j * c) urls))) [0..<m]"
        "S = pre @ map (wave_entry c urls) [1..<Suc m]" by blast
    have "(m - 1) * c < length urls" using m(3) True "1.prems"(3) by auto
    with m show ?thesis by (intro exI[of _ m]) simp
  qed
qed


text \<open>
  C7. A bulk scan of n targets with wave size c = concurrency dispatches the targets
  in waves: wave j holds the targets from position j * c on, c of them (fewer in the last
  wave), there are as many waves as it takes to cover n, and together the waves are the
  targets, each once and in order, whether scans fail or not. One entry is stored after
  each wave, the k-th with progress min (k * c) n and with the fulfilled and the rejected
  scans of the first k waves. The final entry holds the fulfilled scans as results and
  the rejected ones as errors, and the two together have exactly n entries.
\<close>

theorem bulk_scan_accounts_for_every_target:
  assumes "c = or_default env 3"
      and "processBulkScan env urls = (stored, waves)"
  shows "0 < c
     \<and> waves = map (\<lambda>j. map fst (take c (drop (j * c) urls))) [0..<length waves]
     \<and> length urls \<le> length waves * c
     \<and> (waves = [] \<or> (length waves - 1) * c < length urls)
     \<and> concat waves = map fst urls
     \<and> stored =
          \<lparr> b_status = Processing, b_progress = 0, b_total = length urls,
            b_results = [], b_errors = [] \<rparr>
          # map (wave_entry c urls) [1..<Suc (length waves)]
          @ [\<lparr> b_status = Completed, b_progress = length urls, b_total = length urls,
               b_results = fulfilled urls, b_errors = rejected urls \<rparr>]
     \<and> length (fulfilled urls) + length (rejected urls) = length urls"
proof -
  let ?first = "\<lparr> b_status = Processing, b_progress = 0, b_total = length urls,
                   b_results = [], b_errors = [] \<rparr> :: 'a bulk_entry"
  obtain R E S W where loop: "bulk_loop env 0 urls [] [] [?first] [] = (R, E, S, W)"
    by (cases "bulk_loop env 0 urls [] [] [?first] []") auto
  have "\<exists>m. 0 \<le> m \<and> length urls \<le> m * c \<and> (m = 0 \<or> (m - 1) * c < length urls)
           \<and> R = fulfilled urls \<and> E = rejected urls
           \<and> W = map (\<lambda>j. map fst (take c (drop (j * c) urls))) [0..<m]
           \<and> S = [?first] @ map (wave_entry c urls) [1..<Suc m]"
    by (rule bulk_loop_inv[OF loop assms(1)]) simp_all
  then obtain m where m: "length urls \<le> m * c" "m = 0 \<or> (m - 1) * c < length urls"
      "R = fulfilled urls" "E = rejected urls"
      "W = map (\<lambda>j. map fst (take c (drop (j * c) urls))) [0..<m]"
      "S = [?first] @ map (wave_entry c urls) [1..<Suc m]" by blast
  have lw: "length W = m" using m(5) by simp
  have sw: "stored = S @ [\<lparr> b_status = Completed, b_progress = length urls, b_total = length urls,
               b_results = R, b_errors = E \<rparr>]" "waves = W"
    using assms(2) loop by (simp_all add: processBulkScan_def Let_def)
  have cpos: "0 < c" using assms(1) by (simp add: or_default_pos)
  have "concat W = map fst (take (m * c) urls)"
    unfolding m(5) using concat_waves[of c "map fst urls" m]
    by (simp add: take_map drop_map)
  then have cc: "concat W = map fst urls" using m(1) by simp
  have we: "W = [] \<or> (length W - 1) * c < length urls" using m(2) lw by auto
  show ?thesis
    using cpos m(1,3,4,6) lw sw cc we fulfilled_rejected_length[of urls] m(5) by simp
qed

theorem bulk_scan_accounts_for_every_target_witness:
  "(3::nat) = or_default (Some 3) 3
   \<and> concat (snd (processBulkScan (Some 3) ten_targets)) = map fst ten_targets
   \<and> length (fulfilled ten_targets) + length (rejected ten_targets) = length ten_targets
   \<and> length ten_targets = 10
   \<and> length (fulfilled ten_targets) = 8
   \<and> length (rejected ten_targets) = 2"
proof -
  have h: "(3::nat) = or_default (Some 3) 3" by (simp add: or_default_def)
  have v: "length ten_targets = 10" "length (fulfilled ten_targets) = 8"
    "length (rejected ten_targets) = 2"
    by (simp_all add: ten_targets_def)
  show ?thesis
    using bulk_scan_accounts_for_every_target[OF h prod.collapse[symmetric], of ten_targets] h v
    by simp
qed

subsection \<open>Single scan\<close>

lemma scan_attempt_releases:
  assumes "await_acquire (launch_ok env) (waiting env) s = Some (Inr b, s1)"
  shows "scan_attempt env s =
           Some (case page env of Inr a \<Rightarrow> AttemptOk a | Inl msg \<Rightarrow> AttemptFailed (PageFailure msg),
                 release b (if crashes env then crash b s1 else s1))"
  using assms by (simp add: scan_attempt_def Let_def split: sum.splits)

lemma release_healthy_idle:
  assumes "isConnected s b" "queue s = []" "length (pool s) < maxSize s"
  shows "pool (release b s) = pool s @ [b]" "closed (release b s) = closed s"
  using assms by (simp_all add: release_def Let_def isConnected_def)

lemma scan_first_ok:
  assumes "scan_attempt e1 s = Some (AttemptOk a, t1)"
  shows "scanURL fmt False (e1 # rest) s = Some (ScanOk (fmt a), [], t1)"
  using assms by (simp add: scanURL_def MAX_RETRIES_def)

lemma scan_second_ok:
  assumes "scan_attempt e1 s = Some (AttemptFailed x1, t1)"
      and "scan_attempt e2 t1 = Some (AttemptOk a, t2)"
  shows "scanURL fmt False (e1 # e2 # rest) s = Some (ScanOk (fmt a), [1000], t2)"
  using assms by (simp add: scanURL_def MAX_RETRIES_def)

lemma scan_third_ok:
  assumes "scan_attempt e1 s = Some (AttemptFailed x1, t1)"
      and "scan_attempt e2 t1 = Some (AttemptFailed x2, t2)"
      and "scan_attempt e3 t2 = Some (AttemptOk a, t3)"
  shows "scanURL fmt False (e1 # e2 # e3 # rest) s = Some (ScanOk (fmt a), [1000, 2000], t3)"
  using assms by (simp add: scanURL_def MAX_RETRIES_def)

lemma scan_all_fail:
  assumes "scan_attempt e1 s = Some (AttemptFailed x1, t1)"
      and "scan_attempt e2 t1 = Some (AttemptFailed x2, t2)"
      and "scan_attempt e3 t2 = Some (AttemptFailed x3, t3)"
  shows "scanURL fmt False (e1 # e2 # e3 # rest) s = Some (ScanFailed 3 x3, [1000, 2000], t3)"
  using assms by (simp add: scanURL_def MAX_RETRIES_def)

text \<open>
  C6, as the code has it. An attempt that got a browser ends by calling release on it,
  whether the page work succeeded or threw. release puts a connected browser back into
  the idle list (no waiter, idle list below maxSize) or hands it to the oldest waiter,
  without closing it, and closes it when it is not connected. After the k-th failed attempt, k below MAX_RETRIES = 3, the scan sleeps
  1000 * k ms. A scan whose first, second or third attempt succeeds returns the
  formatted result; a scan whose three attempts all fail throws the error that carries
  MAX_RETRIES and the last attempt's error, without sleeping again.
\<close>

theorem scanURL_retry_policy:
  "(await_acquire (launch_ok env) (waiting env) s = Some (Inr b, s1) \<longrightarrow>
      scan_attempt env s =
        Some (case page env of Inr a \<Rightarrow> AttemptOk a | Inl msg \<Rightarrow> AttemptFailed (PageFailure msg),
              release b (if crashes env then crash b s1 else s1)))
   \<and> (isConnected s2 b \<and> queue s2 = [] \<and> length (pool s2) < maxSize s2 \<longrightarrow>
        pool (release b s2) = pool s2 @ [b] \<and> closed (release b s2) = closed s2)
   \<and> (\<not> isConnected s2 b \<longrightarrow>
        pool (release b s2) = pool s2 \<and> closed (release b s2) = closed s2 @ [b])
   \<and> (isConnected s2 b \<and> queue s2 \<noteq> [] \<longrightarrow>
        pool (release b s2) = pool s2 \<and> closed (release b s2) = closed s2)
   \<and> (scan_attempt e1 s = Some (AttemptOk a, t1) \<longrightarrow>
        scanURL fmt False (e1 # rest) s = Some (ScanOk (fmt a), [], t1))
   \<and> (scan_attempt e1 s = Some (AttemptFailed x1, t1) \<and>
      scan_attempt e2 t1 = Some (AttemptOk a, t2) \<longrightarrow>
        scanURL fmt False (e1 # e2 # rest) s = Some (ScanOk (fmt a), [1000], t2))
   \<and> (scan_attempt e1 s = Some (AttemptFailed x1, t1) \<and>
      scan_attempt e2 t1 = Some (AttemptFailed x2, t2) \<and>
      scan_attempt e3 t2 = Some (AttemptOk a, t3) \<longrightarrow>
        scanURL fmt False (e1 # e2 # e3 # rest) s = Some (ScanOk (fmt a), [1000, 2000], t3))
   \<and> (scan_attempt e1 s = Some (AttemptFailed x1, t1) \<and>
      scan_attempt e2 t1 = Some (AttemptFailed x2, t2) \<and>
      scan_attempt e3 t2 = Some (AttemptFailed x3, t3) \<longrightarrow>
        scanURL fmt False (e1 # e2 # e3 # rest) s = Some (ScanFailed MAX_RETRIES x3, [1000, 2000], t3))"
proof -
  have a: "await_acquire (launch_ok env) (waiting env) s = Some (Inr b, s1) \<longrightarrow>
      scan_attempt env s =
        Some (case page env of Inr a \<Rightarrow> AttemptOk a | Inl msg \<Rightarrow> AttemptFailed (PageFailure msg),
              release b (if crashes env then crash b s1 else s1))"
    using scan_attempt_releases by blast
  have b: "isConnected s2 b \<and> queue s2 = [] \<and> length (pool s2) < maxSize s2 \<longrightarrow>
        pool (release b s2) = pool s2 @ [b] \<and> closed (release b s2) = closed s2"
    using release_healthy_idle by blast
  have c: "\<not> isConnected s2 b \<longrightarrow>
        pool (release b s2) = pool s2 \<and> closed (release b s2) = closed s2 @ [b]"
    by (simp add: release_def Let_def isConnected_def close_browser_def)
  have d: "isConnected s2 b \<and> queue s2 \<noteq> [] \<longrightarrow>
        pool (release b s2) = pool s2 \<and> closed (release b s2) = closed s2"
    by (simp add: release_def Let_def isConnected_def)
  show ?thesis
    using a b c d scan_first_ok[of e1 s a t1 fmt rest] scan_second_ok[of e1 s x1 t1 e2 a t2 fmt rest]
      scan_third_ok[of e1 s x1 t1 e2 x2 t2 e3 a t3 fmt rest]
      scan_all_fail[of e1 s x1 t1 e2 x2 t2 e3 x3 t3 fmt rest]
    by (simp add: MAX_RETRIES_def)
qed


lemmas scan_eval = scan_attempt_def await_acquire_def failing_attempt_def passing_attempt_def
  warm_pool_def once_used_def twice_used_def

text \<open>
  C6 as stated fails: after an attempt whose page work throws while the browser stays
  connected, the browser is idle in the pool again and has not been closed; the next
  attempt of the same scan gets the same browser, and the scan ends with one browser
  created in all.
\<close>

theorem failed_attempt_returns_handle_counterexample:
  "map_option (\<lambda>(out, s). (out, pool s, closed s, isConnected s 0))
      (scan_attempt failing_attempt warm_pool)
     = Some (AttemptFailed (PageFailure ''Navigation timeout of 30000 ms exceeded''), [0], [], True)
   \<and> map_option (\<lambda>(r, slept, s). (r, slept, pool s, closed s, totalCreated s))
      (scanURL id False [failing_attempt, passing_attempt] warm_pool)
     = Some (ScanOk 7, [1000], [0], [], 1)"
  by (simp add: scanURL_def MAX_RETRIES_def scan_eval pool_eval)

theorem scanURL_retry_policy_witness:
  "scan_attempt failing_attempt warm_pool
      = Some (AttemptFailed (PageFailure ''Navigation timeout of 30000 ms exceeded''), once_used)
   \<and> scan_attempt passing_attempt once_used = Some (AttemptOk 7, twice_used)
   \<and> scanURL id False [failing_attempt, passing_attempt] warm_pool
      = Some (ScanOk 7, [1000], twice_used)"
proof -
  have h1: "scan_attempt failing_attempt warm_pool
      = Some (AttemptFailed (PageFailure ''Navigation timeout of 30000 ms exceeded''), once_used)"
    by (simp add: scan_eval pool_eval)
  have h2: "scan_attempt passing_attempt once_used = Some (AttemptOk 7, twice_used)"
    by (simp add: scan_eval pool_eval)
  show ?thesis
    using scanURL_retry_policy[of failing_attempt warm_pool 0 warm_pool warm_pool failing_attempt 7 once_used id "[]"
        "PageFailure ''Navigation timeout of 30000 ms exceeded''" passing_attempt twice_used]
      h1 h2
    by simp
qed

end
